theory Spec2Isabelle
  imports Main
begin

section \<open>The LBA directory of the log serializer (lba\_list.cc)\<close>

text \<open>
  The directory \<open>lba_list_t\<close> owns an in-memory index, the current on-disk LBA
  structure and a reader/writer lock, and drives three callback state machines
  (\<open>lba_start_fsm_t\<close>, \<open>lba_syncer_t\<close>, \<open>gc_fsm_t\<close>).  Execution is single-threaded:
  a call runs until it returns, and what is still outstanding afterwards (a queued lock
  request, a flush or a load in flight) is kept in the state until its callback is
  delivered.  Assertion failures and null dereferences are results of type \<open>error\<close>.
\<close>

subsection \<open>Basic types\<close>

type_synonym block_id_t = nat
type_synonym off64_t = int
type_synonym fd_t = nat
type_synonym obj_ref = nat
type_synonym callback_ref = nat
type_synonym lba_entry = "block_id_t \<times> off64_t"

datatype error = assertion_failed | null_dereference | dangling_pointer | not_pending

definition and_then :: "error + 'a \<Rightarrow> ('a \<Rightarrow> error + 'b) \<Rightarrow> error + 'b" where
  "and_then m f = (case m of Inl e \<Rightarrow> Inl e | Inr x \<Rightarrow> f x)"

text \<open>
  Modelled from the spec: the macro \<open>DELETE_BLOCK\<close> is not defined in lba\_list.cc.  The
  spec calls it a distinguished sentinel offset, distinct from any valid offset; valid
  offsets are positions in a file, so the sentinel is taken to be \<open>-1\<close>.
\<close>

definition DELETE_BLOCK :: off64_t where
  "DELETE_BLOCK = - 1"

subsection \<open>The in-memory index (Offset Table)\<close>

text \<open>
  Modelled from the spec: \<open>in_memory_index_t\<close> is not in lba\_list.cc.  The spec describes
  a mapping from every block id to its current offset or tombstone, which generates fresh,
  densely allocated, increasing ids and tracks the upper bound of the assigned ids.  The
  table is the list of offsets indexed by block id; \<open>max_block_id\<close> is its length
  (exclusive bound); an id at or beyond the bound has no offset and reads as the
  tombstone; setting or deleting such an id assigns it, extending the table with
  tombstones up to it.
\<close>

type_synonym in_memory_index_t = "off64_t list"

definition index_new :: in_memory_index_t where
  "index_new = []"

definition index_max_block_id :: "in_memory_index_t \<Rightarrow> block_id_t" where
  "index_max_block_id idx = length idx"

definition index_gen_block_id :: "in_memory_index_t \<Rightarrow> block_id_t \<times> in_memory_index_t" where
  "index_gen_block_id idx = (length idx, idx @ [DELETE_BLOCK])"

definition index_get_block_offset :: "in_memory_index_t \<Rightarrow> block_id_t \<Rightarrow> off64_t" where
  "index_get_block_offset idx b = (if b < length idx then idx ! b else DELETE_BLOCK)"

definition index_set_block_offset ::
  "in_memory_index_t \<Rightarrow> block_id_t \<Rightarrow> off64_t \<Rightarrow> in_memory_index_t" where
  "index_set_block_offset idx b off =
     (idx @ replicate (Suc b - length idx) DELETE_BLOCK)[b := off]"

definition index_delete_block :: "in_memory_index_t \<Rightarrow> block_id_t \<Rightarrow> in_memory_index_t" where
  "index_delete_block idx b = index_set_block_offset idx b DELETE_BLOCK"

text \<open>The constructor \<open>in_memory_index_t(disk_structure)\<close>: replay of the log's entries,
  later entries superseding earlier ones.\<close>

definition index_from_log :: "lba_entry list \<Rightarrow> in_memory_index_t" where
  "index_from_log es = foldl (\<lambda>idx (b, off). index_set_block_offset idx b off) index_new es"

subsection \<open>The on-disk LBA structure (Durable Log Snapshot)\<close>

text \<open>
  Modelled from the spec: \<open>lba_disk_structure_t\<close> is not in lba\_list.cc.  One generation
  of the on-disk log: the entries appended so far, in order, and how many of them (a
  prefix) have reached durable storage.  \<open>gen\<close> identifies the generation.  A flush makes
  the entries appended before the request durable; it completes at once or later.
  The anchor (\<open>metablock_mixin_t\<close>) is opaque to the directory; it is modelled by the
  durable entries that a load from it replays.
\<close>

record lba_disk_structure_t =
  gen :: nat
  entries :: "lba_entry list"
  durable :: nat

type_synonym metablock_mixin_t = "lba_entry list"

definition ds_add_entry :: "lba_disk_structure_t \<Rightarrow> block_id_t \<Rightarrow> off64_t \<Rightarrow> lba_disk_structure_t" where
  "ds_add_entry d b off = d\<lparr>entries := entries d @ [(b, off)]\<rparr>"

definition ds_prepare_metablock :: "lba_disk_structure_t \<Rightarrow> metablock_mixin_t" where
  "ds_prepare_metablock d = take (durable d) (entries d)"

subsection \<open>The reader/writer lock (Sequencing Lock)\<close>

text \<open>
  Modelled from the spec: \<open>rwi_lock_t\<close> is not in lba\_list.cc.  Read mode is shared and
  refused only while the lock is held in write mode; write mode is exclusive.  A refused
  request waits in \<open>queue\<close>.  Releasing the lock grants waiting requests from the head of
  the queue as long as they are compatible; a request granted this way is moved to
  \<open>granted\<close>, and its \<open>on_lock_available\<close> callback runs later.
\<close>

datatype access_t = rwi_read | rwi_write

record rwi_lock_t =
  readers :: nat
  writer :: bool
  queue :: "(access_t \<times> obj_ref option) list"
  granted :: "(access_t \<times> obj_ref option) list"

definition rwi_lock_new :: rwi_lock_t where
  "rwi_lock_new = \<lparr>readers = 0, writer = False, queue = [], granted = []\<rparr>"

fun try_lock :: "access_t \<Rightarrow> rwi_lock_t \<Rightarrow> bool" where
  "try_lock rwi_read l = (\<not> writer l)"
| "try_lock rwi_write l = (\<not> writer l \<and> readers l = 0)"

fun take_lock :: "access_t \<Rightarrow> rwi_lock_t \<Rightarrow> rwi_lock_t" where
  "take_lock rwi_read l = l\<lparr>readers := Suc (readers l)\<rparr>"
| "take_lock rwi_write l = l\<lparr>writer := True\<rparr>"

definition rwi_lock :: "access_t \<Rightarrow> obj_ref option \<Rightarrow> rwi_lock_t \<Rightarrow> bool \<times> rwi_lock_t" where
  "rwi_lock m cb l =
     (if try_lock m l then (True, take_lock m l)
      else (False, l\<lparr>queue := queue l @ [(m, cb)]\<rparr>))"

fun grant_waiting :: "(access_t \<times> obj_ref option) list \<Rightarrow> rwi_lock_t \<Rightarrow> rwi_lock_t" where
  "grant_waiting [] l = l\<lparr>queue := []\<rparr>"
| "grant_waiting ((m, cb) # q) l =
     (if try_lock m l
      then grant_waiting q ((take_lock m l)\<lparr>granted := granted l @ [(m, cb)]\<rparr>)
      else l\<lparr>queue := (m, cb) # q\<rparr>)"

definition process_queue :: "rwi_lock_t \<Rightarrow> rwi_lock_t" where
  "process_queue l = grant_waiting (queue l) l"

definition rwi_unlock :: "rwi_lock_t \<Rightarrow> error + rwi_lock_t" where
  "rwi_unlock l =
     (if writer l then Inr (process_queue (l\<lparr>writer := False\<rparr>))
      else if 0 < readers l then Inr (process_queue (l\<lparr>readers := readers l - 1\<rparr>))
      else Inl assertion_failed)"

subsection \<open>The directory and its outstanding work\<close>

datatype state_t = state_unstarted | state_starting_up | state_ready | state_shut_down

text \<open>The heap objects created with \<open>new\<close>: a syncer and a starter carry their
  \<open>callback\<close> field (\<open>None\<close> is the null pointer); a gc machine has no field of its own.\<close>

datatype fsm = Syncer "callback_ref option" | Gc | Starter "callback_ref option"

text \<open>
  The first six fields are those of \<open>lba_list_t\<close>.  The others are the surroundings the
  code runs in: the objects allocated with \<open>new\<close> and not yet deleted; the flushes in
  flight (callback object, generation, number of entries covered); the loads in flight;
  the structures told to destroy themselves; the answers of the I/O layer to the coming
  flush and load requests (\<open>True\<close>: completes at once; an exhausted script defers); and
  the caller's callbacks invoked so far.
\<close>

record lba_list_t =
  extent_manager :: nat
  state :: state_t
  dbfd :: "fd_t option"
  in_memory_index :: "in_memory_index_t option"
  disk_structure :: "lba_disk_structure_t option"
  disk_structure_lock :: rwi_lock_t
  heap :: "obj_ref \<Rightarrow> fsm option"
  next_obj :: nat
  next_gen :: nat
  flushing :: "(obj_ref option \<times> nat \<times> nat) list"
  loading :: "obj_ref option list"
  destroyed :: "lba_disk_structure_t list"
  io :: "bool list"
  sync_fired :: "callback_ref list"
  ready_fired :: "callback_ref list"

definition lba_list_t_new :: "nat \<Rightarrow> lba_list_t" where
  "lba_list_t_new em =
     \<lparr>extent_manager = em, state = state_unstarted, dbfd = None,
      in_memory_index = None, disk_structure = None, disk_structure_lock = rwi_lock_new,
      heap = (\<lambda>a. None), next_obj = 0, next_gen = 0, flushing = [], loading = [],
      destroyed = [], io = [], sync_fired = [], ready_fired = []\<rparr>"

definition new_obj :: "fsm \<Rightarrow> lba_list_t \<Rightarrow> obj_ref \<times> lba_list_t" where
  "new_obj x s = (next_obj s, s\<lparr>heap := (heap s)(next_obj s := Some x), next_obj := Suc (next_obj s)\<rparr>)"

definition delete_obj :: "obj_ref \<Rightarrow> lba_list_t \<Rightarrow> lba_list_t" where
  "delete_obj a s = s\<lparr>heap := (heap s)(a := None)\<rparr>"

definition io_next :: "lba_list_t \<Rightarrow> bool \<times> lba_list_t" where
  "io_next s = (case io s of [] \<Rightarrow> (False, s) | b # bs \<Rightarrow> (b, s\<lparr>io := bs\<rparr>))"

text \<open>\<open>lba_disk_structure_t::create\<close>: a new, empty generation, installed through the
  out-pointer.\<close>

definition ds_create :: "lba_list_t \<Rightarrow> lba_list_t" where
  "ds_create s =
     s\<lparr>disk_structure := Some \<lparr>gen = next_gen s, entries = [], durable = 0\<rparr>,
       next_gen := Suc (next_gen s)\<rparr>"

text \<open>\<open>lba_disk_structure_t::load\<close>: the generation the anchor leads to, installed through
  the out-pointer; the result tells whether the load is already complete.\<close>

definition ds_load :: "metablock_mixin_t \<Rightarrow> obj_ref option \<Rightarrow> lba_list_t \<Rightarrow> bool \<times> lba_list_t" where
  "ds_load mb cb s =
     (let s1 = s\<lparr>disk_structure := Some \<lparr>gen = next_gen s, entries = mb, durable = length mb\<rparr>,
                 next_gen := Suc (next_gen s)\<rparr>;
          (done, s2) = io_next s1
      in if done then (True, s2) else (False, s2\<lparr>loading := loading s2 @ [cb]\<rparr>))"

text \<open>\<open>disk_structure->sync(cb)\<close>.\<close>

definition ds_sync :: "obj_ref option \<Rightarrow> lba_list_t \<Rightarrow> error + (bool \<times> lba_list_t)" where
  "ds_sync cb s =
     (case disk_structure s of
        None \<Rightarrow> Inl null_dereference
      | Some d \<Rightarrow>
          (let (done, s1) = io_next s
           in if done
              then Inr (True, s1\<lparr>disk_structure := Some (d\<lparr>durable := length (entries d)\<rparr>)\<rparr>)
              else Inr (False, s1\<lparr>flushing := flushing s1 @ [(cb, gen d, length (entries d))]\<rparr>)))"

text \<open>\<open>disk_structure->add_entry(block, offset)\<close>.\<close>

definition add_entry :: "block_id_t \<Rightarrow> off64_t \<Rightarrow> lba_list_t \<Rightarrow> error + lba_list_t" where
  "add_entry b off s =
     (case disk_structure s of
        None \<Rightarrow> Inl null_dereference
      | Some d \<Rightarrow> Inr (s\<lparr>disk_structure := Some (ds_add_entry d b off)\<rparr>))"

text \<open>\<open>disk_structure->destroy()\<close>: the structure is told to release its extents and
  delete itself; the call does not wait.\<close>

definition ds_destroy :: "lba_list_t \<Rightarrow> error + lba_list_t" where
  "ds_destroy s =
     (case disk_structure s of
        None \<Rightarrow> Inl null_dereference
      | Some d \<Rightarrow> Inr (s\<lparr>destroyed := destroyed s @ [d]\<rparr>))"

definition lock_op :: "access_t \<Rightarrow> obj_ref option \<Rightarrow> lba_list_t \<Rightarrow> bool \<times> lba_list_t" where
  "lock_op m cb s =
     (let (ok, l) = rwi_lock m cb (disk_structure_lock s) in (ok, s\<lparr>disk_structure_lock := l\<rparr>))"

definition unlock_op :: "lba_list_t \<Rightarrow> error + lba_list_t" where
  "unlock_op s =
     and_then (rwi_unlock (disk_structure_lock s)) (\<lambda>l. Inr (s\<lparr>disk_structure_lock := l\<rparr>))"

text \<open>\<open>if (callback) callback->on_lba_sync()\<close> and \<open>if (callback) callback->on_lba_ready()\<close>:
  the caller's callback is invoked unless the pointer is null.\<close>

definition call_on_lba_sync :: "callback_ref option \<Rightarrow> lba_list_t \<Rightarrow> lba_list_t" where
  "call_on_lba_sync callback s =
     (case callback of None \<Rightarrow> s | Some c \<Rightarrow> s\<lparr>sync_fired := sync_fired s @ [c]\<rparr>)"

definition call_on_lba_ready :: "callback_ref option \<Rightarrow> lba_list_t \<Rightarrow> lba_list_t" where
  "call_on_lba_ready callback s =
     (case callback of None \<Rightarrow> s | Some c \<Rightarrow> s\<lparr>ready_fired := ready_fired s @ [c]\<rparr>)"

subsection \<open>Start\<close>

text \<open>\<open>lba_list_t::start(fd)\<close>, creating a new database.\<close>

definition start_new :: "fd_t \<Rightarrow> lba_list_t \<Rightarrow> error + lba_list_t" where
  "start_new fd s =
     (if state s \<noteq> state_unstarted then Inl assertion_failed
      else Inr ((ds_create (s\<lparr>dbfd := Some fd, in_memory_index := Some index_new\<rparr>))
                 \<lparr>state := state_ready\<rparr>))"

text \<open>\<open>lba_start_fsm_t::finish\<close>.\<close>

definition starter_finish :: "obj_ref \<Rightarrow> lba_list_t \<Rightarrow> error + lba_list_t" where
  "starter_finish a s =
     (case heap s a of
        Some (Starter callback) \<Rightarrow>
          (case disk_structure s of
             None \<Rightarrow> Inl null_dereference
           | Some d \<Rightarrow>
               Inr (delete_obj a
                      (call_on_lba_ready callback
                         (s\<lparr>in_memory_index := Some (index_from_log (entries d)),
                            state := state_ready\<rparr>))))
      | _ \<Rightarrow> Inl dangling_pointer)"

text \<open>\<open>lba_start_fsm_t::run\<close>.  The machine's own \<open>state\<close> field is \<open>state_start\<close> from
  the constructor on and is never assigned, so its assertion holds.\<close>

definition starter_run ::
  "obj_ref \<Rightarrow> metablock_mixin_t \<Rightarrow> callback_ref option \<Rightarrow> lba_list_t \<Rightarrow> error + (bool \<times> lba_list_t)" where
  "starter_run a last_metablock cb s =
     (if state s \<noteq> state_unstarted then Inl assertion_failed
      else
        (let (done, s1) = ds_load last_metablock (Some a) (s\<lparr>state := state_starting_up\<rparr>)
         in if done
            then and_then (starter_finish a (s1\<lparr>heap := (heap s1)(a := Some (Starter None))\<rparr>))
                   (\<lambda>s2. Inr (True, s2))
            else Inr (False, s1\<lparr>heap := (heap s1)(a := Some (Starter cb))\<rparr>)))"

definition starter_on_load_lba :: "obj_ref \<Rightarrow> lba_list_t \<Rightarrow> error + lba_list_t" where
  "starter_on_load_lba a s = starter_finish a s"

text \<open>\<open>lba_list_t::start(fd, last_metablock, cb)\<close>, loading an existing database.\<close>

definition start ::
  "fd_t \<Rightarrow> metablock_mixin_t \<Rightarrow> callback_ref option \<Rightarrow> lba_list_t \<Rightarrow> error + (bool \<times> lba_list_t)" where
  "start fd last_metablock cb s =
     (if state s \<noteq> state_unstarted then Inl assertion_failed
      else
        (let (starter, s1) = new_obj (Starter None) (s\<lparr>dbfd := Some fd\<rparr>)
         in starter_run starter last_metablock cb s1))"

subsection \<open>Mapping operations\<close>

definition gen_block_id :: "lba_list_t \<Rightarrow> error + (block_id_t \<times> lba_list_t)" where
  "gen_block_id s =
     (if state s \<noteq> state_ready then Inl assertion_failed
      else case in_memory_index s of
             None \<Rightarrow> Inl null_dereference
           | Some idx \<Rightarrow>
               (let (b, idx') = index_gen_block_id idx
                in Inr (b, s\<lparr>in_memory_index := Some idx'\<rparr>)))"

definition max_block_id :: "lba_list_t \<Rightarrow> error + block_id_t" where
  "max_block_id s =
     (if state s \<noteq> state_ready then Inl assertion_failed
      else case in_memory_index s of
             None \<Rightarrow> Inl null_dereference
           | Some idx \<Rightarrow> Inr (index_max_block_id idx))"

definition get_block_offset :: "block_id_t \<Rightarrow> lba_list_t \<Rightarrow> error + off64_t" where
  "get_block_offset block s =
     (if state s \<noteq> state_ready then Inl assertion_failed
      else case in_memory_index s of
             None \<Rightarrow> Inl null_dereference
           | Some idx \<Rightarrow> Inr (index_get_block_offset idx block))"

definition set_block_offset :: "block_id_t \<Rightarrow> off64_t \<Rightarrow> lba_list_t \<Rightarrow> error + lba_list_t" where
  "set_block_offset block offset s =
     (if state s \<noteq> state_ready then Inl assertion_failed
      else case in_memory_index s of
             None \<Rightarrow> Inl null_dereference
           | Some idx \<Rightarrow>
               add_entry block offset
                 (s\<lparr>in_memory_index := Some (index_set_block_offset idx block offset)\<rparr>))"

definition delete_block :: "block_id_t \<Rightarrow> lba_list_t \<Rightarrow> error + lba_list_t" where
  "delete_block block s =
     (if state s \<noteq> state_ready then Inl assertion_failed
      else case in_memory_index s of
             None \<Rightarrow> Inl null_dereference
           | Some idx \<Rightarrow>
               add_entry block DELETE_BLOCK
                 (s\<lparr>in_memory_index := Some (index_delete_block idx block)\<rparr>))"

subsection \<open>Garbage collection\<close>

text \<open>The loop of \<open>gc_fsm_t::do_replace_disk_structure\<close>:
  \<^verbatim>\<open>for (block_id_t id = 0; id < owner->max_block_id(); id++)
    owner->disk_structure->add_entry(id, owner->get_block_offset(id));\<close>\<close>

function gc_copy_loop :: "block_id_t \<Rightarrow> lba_list_t \<Rightarrow> error + lba_list_t" where
  "gc_copy_loop i s =
     (case max_block_id s of
        Inl e \<Rightarrow> Inl e
      | Inr m \<Rightarrow>
          if i < m
          then (case get_block_offset i s of
                  Inl e \<Rightarrow> Inl e
                | Inr off \<Rightarrow>
                    (case disk_structure s of
                       None \<Rightarrow> Inl null_dereference
                     | Some d \<Rightarrow>
                         gc_copy_loop (Suc i) (s\<lparr>disk_structure := Some (ds_add_entry d i off)\<rparr>)))
          else Inr s)"
  by pat_completeness auto
termination
  by (relation "measure (\<lambda>(i, s). (case max_block_id s of Inl e \<Rightarrow> 0 | Inr m \<Rightarrow> m - i))")
     (auto simp: max_block_id_def split: if_splits option.splits)

declare gc_copy_loop.simps [simp del]

text \<open>\<open>gc_fsm_t::do_cleanup\<close>.\<close>

definition gc_do_cleanup :: "obj_ref \<Rightarrow> lba_list_t \<Rightarrow> error + lba_list_t" where
  "gc_do_cleanup a s =
     (case heap s a of
        Some Gc \<Rightarrow> and_then (unlock_op s) (\<lambda>s1. Inr (delete_obj a s1))
      | _ \<Rightarrow> Inl dangling_pointer)"

text \<open>The first part of \<open>gc_fsm_t::do_replace_disk_structure\<close>: destroy the current
  structure, create a new empty one, copy the index into it.\<close>

definition gc_replace_and_copy :: "lba_list_t \<Rightarrow> error + lba_list_t" where
  "gc_replace_and_copy s = and_then (ds_destroy s) (\<lambda>s1. gc_copy_loop 0 (ds_create s1))"

text \<open>The second part: release the write lock and take the lock again for reading, with
  no callback; \<open>assert(ok)\<close>.\<close>

definition gc_downgrade :: "lba_list_t \<Rightarrow> error + lba_list_t" where
  "gc_downgrade s =
     and_then (unlock_op s)
       (\<lambda>s1. let (ok, s2) = lock_op rwi_read None s1
             in if ok then Inr s2 else Inl assertion_failed)"

text \<open>\<open>gc_fsm_t::do_replace_disk_structure\<close>.\<close>

definition gc_do_replace_disk_structure :: "obj_ref \<Rightarrow> lba_list_t \<Rightarrow> error + lba_list_t" where
  "gc_do_replace_disk_structure a s =
     (case heap s a of
        Some Gc \<Rightarrow>
          and_then (gc_replace_and_copy s)
            (\<lambda>s1. and_then (gc_downgrade s1)
               (\<lambda>s2. and_then (ds_sync (Some a) s2)
                  (\<lambda>(done, s3). if done then gc_do_cleanup a s3 else Inr s3)))
      | _ \<Rightarrow> Inl dangling_pointer)"

definition gc_on_lock_available :: "obj_ref \<Rightarrow> lba_list_t \<Rightarrow> error + lba_list_t" where
  "gc_on_lock_available a s = gc_do_replace_disk_structure a s"

definition gc_on_sync_lba :: "obj_ref \<Rightarrow> lba_list_t \<Rightarrow> error + lba_list_t" where
  "gc_on_sync_lba a s = gc_do_cleanup a s"

text \<open>\<open>lba_list_t::gc\<close>, that is \<open>new gc_fsm_t(this)\<close> with the constructor's body.\<close>

definition gc :: "lba_list_t \<Rightarrow> error + lba_list_t" where
  "gc s =
     (let (a, s1) = new_obj Gc s;
          (ok, s2) = lock_op rwi_write (Some a) s1
      in if ok then gc_do_replace_disk_structure a s2 else Inr s2)"

subsection \<open>Sync\<close>

text \<open>\<open>lba_syncer_t::finish\<close>.\<close>

definition syncer_finish :: "obj_ref \<Rightarrow> lba_list_t \<Rightarrow> error + (bool \<times> lba_list_t)" where
  "syncer_finish a s =
     (case heap s a of
        Some (Syncer callback) \<Rightarrow>
          and_then (unlock_op s)
            (\<lambda>s1. Inr (True, delete_obj a (call_on_lba_sync callback s1)))
      | _ \<Rightarrow> Inl dangling_pointer)"

text \<open>\<open>lba_syncer_t::do_write\<close>.\<close>

definition syncer_do_write :: "obj_ref \<Rightarrow> lba_list_t \<Rightarrow> error + (bool \<times> lba_list_t)" where
  "syncer_do_write a s =
     and_then (ds_sync (Some a) s)
       (\<lambda>(done, s1). if done then syncer_finish a s1 else Inr (False, s1))"

text \<open>\<open>lba_syncer_t::do_acquire_lock\<close>.\<close>

definition syncer_do_acquire_lock :: "obj_ref \<Rightarrow> lba_list_t \<Rightarrow> error + (bool \<times> lba_list_t)" where
  "syncer_do_acquire_lock a s =
     (let (ok, s1) = lock_op rwi_read (Some a) s
      in if ok then syncer_do_write a s1 else Inr (False, s1))"

definition syncer_on_lock_available :: "obj_ref \<Rightarrow> lba_list_t \<Rightarrow> error + lba_list_t" where
  "syncer_on_lock_available a s = and_then (syncer_do_write a s) (\<lambda>(r, s1). Inr s1)"

definition syncer_on_sync_lba :: "obj_ref \<Rightarrow> lba_list_t \<Rightarrow> error + lba_list_t" where
  "syncer_on_sync_lba a s = and_then (syncer_finish a s) (\<lambda>(r, s1). Inr s1)"

text \<open>\<open>lba_syncer_t::run\<close>: the \<open>callback\<close> field is null while the lock is acquired and
  the flush requested, and is set to \<open>cb\<close> only when that did not complete.\<close>

definition syncer_run :: "obj_ref \<Rightarrow> callback_ref option \<Rightarrow> lba_list_t \<Rightarrow> error + (bool \<times> lba_list_t)" where
  "syncer_run a cb s =
     and_then (syncer_do_acquire_lock a (s\<lparr>heap := (heap s)(a := Some (Syncer None))\<rparr>))
       (\<lambda>(done, s1). if done then Inr (True, s1)
                      else Inr (False, s1\<lparr>heap := (heap s1)(a := Some (Syncer cb))\<rparr>))"

text \<open>\<open>lba_list_t::sync\<close>; \<open>r\<close> is the value that \<open>rand()\<close> returns.\<close>

definition sync :: "nat \<Rightarrow> callback_ref option \<Rightarrow> lba_list_t \<Rightarrow> error + (bool \<times> lba_list_t)" where
  "sync r cb s =
     (if state s \<noteq> state_ready then Inl assertion_failed
      else and_then (if r mod 5 = 1 then gc s else Inr s)
             (\<lambda>s1. let (syncer, s2) = new_obj (Syncer None) s1 in syncer_run syncer cb s2))"

subsection \<open>Anchor, shutdown, destructor\<close>

definition prepare_metablock :: "lba_list_t \<Rightarrow> error + metablock_mixin_t" where
  "prepare_metablock s =
     (case disk_structure s of
        None \<Rightarrow> Inl null_dereference
      | Some d \<Rightarrow> Inr (ds_prepare_metablock d))"

definition shutdown :: "lba_list_t \<Rightarrow> error + lba_list_t" where
  "shutdown s =
     (if state s \<noteq> state_ready then Inl assertion_failed
      else case disk_structure s of
             None \<Rightarrow> Inl null_dereference
           | Some d \<Rightarrow> Inr (s\<lparr>in_memory_index := None, disk_structure := None,
                               state := state_shut_down\<rparr>))"

text \<open>\<open>lba_list_t::~lba_list_t\<close>.\<close>

definition lba_list_t_delete :: "lba_list_t \<Rightarrow> error + unit" where
  "lba_list_t_delete s =
     (if \<not> (state s = state_unstarted \<or> state s = state_shut_down) then Inl assertion_failed
      else if in_memory_index s \<noteq> None then Inl assertion_failed
      else if disk_structure s \<noteq> None then Inl assertion_failed
      else Inr ())"

subsection \<open>Calls and callback deliveries\<close>

text \<open>What can happen to a directory: a call of its interface, or the delivery of an
  outstanding callback: the lock notification granted first, the completion of the
  \<open>k\<close>-th flush in flight, the completion of the load in flight.\<close>

datatype event =
    Call_start_new fd_t
  | Call_start fd_t metablock_mixin_t "callback_ref option"
  | Call_gen_block_id
  | Call_set_block_offset block_id_t off64_t
  | Call_delete_block block_id_t
  | Call_sync nat "callback_ref option"
  | Call_shutdown
  | Lock_available
  | Sync_done nat
  | Load_done

definition deliver_lock_available :: "lba_list_t \<Rightarrow> error + lba_list_t" where
  "deliver_lock_available s =
     (case granted (disk_structure_lock s) of
        [] \<Rightarrow> Inl not_pending
      | (m, cb) # g \<Rightarrow>
          (let s1 = s\<lparr>disk_structure_lock := (disk_structure_lock s)\<lparr>granted := g\<rparr>\<rparr>
           in case cb of
                None \<Rightarrow> Inl null_dereference
              | Some a \<Rightarrow>
                  (case heap s1 a of
                     Some (Syncer c) \<Rightarrow> syncer_on_lock_available a s1
                   | Some Gc \<Rightarrow> gc_on_lock_available a s1
                   | _ \<Rightarrow> Inl dangling_pointer)))"

text \<open>A flush in flight completes: the entries it covers are durable if its generation
  is still the current one; then \<open>on_sync_lba\<close> runs.\<close>

definition flush_completed :: "nat \<Rightarrow> nat \<Rightarrow> lba_list_t \<Rightarrow> lba_list_t" where
  "flush_completed g n s =
     (case disk_structure s of
        None \<Rightarrow> s
      | Some d \<Rightarrow>
          if gen d = g then s\<lparr>disk_structure := Some (d\<lparr>durable := max (durable d) n\<rparr>)\<rparr>
          else s)"

definition deliver_sync_done :: "nat \<Rightarrow> lba_list_t \<Rightarrow> error + lba_list_t" where
  "deliver_sync_done k s =
     (if length (flushing s) \<le> k then Inl not_pending
      else
        (case flushing s ! k of
           (cb, g, n) \<Rightarrow>
             (let s1 = flush_completed g n
                         (s\<lparr>flushing := take k (flushing s) @ drop (Suc k) (flushing s)\<rparr>)
              in case cb of
                   None \<Rightarrow> Inl null_dereference
                 | Some a \<Rightarrow>
                     (case heap s1 a of
                        Some (Syncer c) \<Rightarrow> syncer_on_sync_lba a s1
                      | Some Gc \<Rightarrow> gc_on_sync_lba a s1
                      | _ \<Rightarrow> Inl dangling_pointer))))"

definition deliver_load_done :: "lba_list_t \<Rightarrow> error + lba_list_t" where
  "deliver_load_done s =
     (case loading s of
        [] \<Rightarrow> Inl not_pending
      | cb # rest \<Rightarrow>
          (case cb of
             None \<Rightarrow> Inl null_dereference
           | Some a \<Rightarrow> starter_on_load_lba a (s\<lparr>loading := rest\<rparr>)))"

fun step :: "event \<Rightarrow> lba_list_t \<Rightarrow> error + lba_list_t" where
  "step (Call_start_new fd) s = start_new fd s"
| "step (Call_start fd mb cb) s = and_then (start fd mb cb s) (\<lambda>(r, s1). Inr s1)"
| "step Call_gen_block_id s = and_then (gen_block_id s) (\<lambda>(b, s1). Inr s1)"
| "step (Call_set_block_offset b off) s = set_block_offset b off s"
| "step (Call_delete_block b) s = delete_block b s"
| "step (Call_sync r cb) s = and_then (sync r cb s) (\<lambda>(r, s1). Inr s1)"
| "step Call_shutdown s = shutdown s"
| "step Lock_available s = deliver_lock_available s"
| "step (Sync_done k) s = deliver_sync_done k s"
| "step Load_done s = deliver_load_done s"

fun run :: "event list \<Rightarrow> lba_list_t \<Rightarrow> error + lba_list_t" where
  "run [] s = Inr s"
| "run (e # es) s = and_then (step e s) (run es)"

text \<open>Restart from the anchor that \<open>prepare_metablock\<close> produces: a new directory is
  started from it, and the table it ends up with is returned.\<close>

definition recovered_index :: "lba_list_t \<Rightarrow> error + in_memory_index_t option" where
  "recovered_index s =
     and_then (prepare_metablock s)
       (\<lambda>mb. and_then (start 0 mb None ((lba_list_t_new (extent_manager s))\<lparr>io := [True]\<rparr>))
          (\<lambda>(done, s1). Inr (in_memory_index s1)))"

text \<open>The directory right after \<open>start(fd)\<close> on a newly constructed object, in
  surroundings whose I/O layer answers by \<open>script\<close>.\<close>

definition started :: "fd_t \<Rightarrow> nat \<Rightarrow> bool list \<Rightarrow> lba_list_t" where
  "started fd em script =
     (ds_create ((lba_list_t_new em)\<lparr>io := script, dbfd := Some fd,
                                     in_memory_index := Some index_new\<rparr>))
       \<lparr>state := state_ready\<rparr>"

text \<open>The fields that neither the sync nor the gc machinery writes.\<close>

definition index_untouched :: "lba_list_t \<Rightarrow> lba_list_t \<Rightarrow> bool" where
  "index_untouched s s' \<longleftrightarrow>
     state s' = state s \<and> in_memory_index s' = in_memory_index s \<and>
     loading s' = loading s \<and> ready_fired s' = ready_fired s"

text \<open>The events of the sync and gc protocols: a \<open>sync\<close> call (which may start a
  garbage collection), and the deliveries of lock and flush callbacks.\<close>

fun protocol_event :: "event \<Rightarrow> bool" where
  "protocol_event (Call_sync r cb) = True"
| "protocol_event Lock_available = True"
| "protocol_event (Sync_done k) = True"
| "protocol_event e = False"


text \<open>The events after which the index may hold another offset for block \<open>b\<close>, or no
  index may be left: a set or delete of \<open>b\<close> itself, and the lifecycle events.\<close>

fun overwrites :: "block_id_t \<Rightarrow> event \<Rightarrow> bool" where
  "overwrites b (Call_set_block_offset b' off) = (b' = b)"
| "overwrites b (Call_delete_block b') = (b' = b)"
| "overwrites b (Call_start_new fd) = True"
| "overwrites b (Call_start fd mb cb) = True"
| "overwrites b Call_shutdown = True"
| "overwrites b Load_done = True"
| "overwrites b e = False"

text \<open>The current generation keeps its identity and its entries (what is durable of them
  may change), and no structure is destroyed or created.\<close>

definition same_log :: "lba_list_t \<Rightarrow> lba_list_t \<Rightarrow> bool" where
  "same_log s s' \<longleftrightarrow>
     destroyed s' = destroyed s \<and> next_gen s' = next_gen s \<and>
     map_option gen (disk_structure s') = map_option gen (disk_structure s) \<and>
     map_option entries (disk_structure s') = map_option entries (disk_structure s)"

text \<open>The index of a ready directory holds \<open>off\<close> for block \<open>b\<close>.\<close>

definition holds_offset :: "block_id_t \<Rightarrow> off64_t \<Rightarrow> lba_list_t \<Rightarrow> bool" where
  "holds_offset b off s \<longleftrightarrow>
     state s = state_ready \<and>
     (case in_memory_index s of None \<Rightarrow> False | Some idx \<Rightarrow> b < length idx \<and> idx ! b = off)"

text \<open>The directory inside \<open>start(fd, last_metablock, cb)\<close> when the load has been
  requested: the starter is allocated, the state is \<open>state_starting_up\<close>, the loaded
  structure is installed.\<close>

definition start_loading :: "fd_t \<Rightarrow> metablock_mixin_t \<Rightarrow> lba_list_t \<Rightarrow> lba_list_t" where
  "start_loading fd mb s =
     s\<lparr>dbfd := Some fd, next_obj := Suc (next_obj s), state := state_starting_up,
       disk_structure := Some \<lparr>gen = next_gen s, entries = mb, durable = length mb\<rparr>,
       next_gen := Suc (next_gen s), io := tl (io s),
       heap := (heap s)(next_obj s := Some (Starter None))\<rparr>"

subsection \<open>Invariants of the sync and gc protocols\<close>

text \<open>Lock accounting: \<open>k\<close> readers hold the lock besides those whose grant is not yet
  delivered; a writer holds it only with its grant not yet delivered.\<close>

definition lock_ok :: "nat \<Rightarrow> rwi_lock_t \<Rightarrow> bool" where
  "lock_ok k l \<longleftrightarrow>
     (writer l \<longrightarrow> readers l = 0) \<and>
     readers l = k + length (filter (\<lambda>r. fst r = rwi_read) (granted l)) \<and>
     length (filter (\<lambda>r. fst r = rwi_write) (granted l)) = (if writer l then 1 else 0)"

text \<open>The lock is held in write mode, by a holder whose grant has been delivered.\<close>

definition write_held :: "rwi_lock_t \<Rightarrow> bool" where
  "write_held l \<longleftrightarrow> writer l \<and> readers l = 0 \<and> granted l = []"

text \<open>A reference waiting at the lock names an object that was allocated; if the object
  still exists, a syncer waits for read mode and a collector for write mode.\<close>

definition ref_ok :: "(obj_ref \<Rightarrow> fsm option) \<Rightarrow> nat \<Rightarrow> access_t \<times> obj_ref option \<Rightarrow> bool" where
  "ref_ok h N r \<longleftrightarrow>
     (case snd r of
        None \<Rightarrow> False
      | Some a \<Rightarrow> a < N \<and>
          (case h a of
             None \<Rightarrow> True
           | Some (Syncer c) \<Rightarrow> fst r = rwi_read
           | Some Gc \<Rightarrow> fst r = rwi_write
           | Some (Starter c) \<Rightarrow> False))"

text \<open>Every queued and every granted request has such a reference.\<close>

definition typed :: "lba_list_t \<Rightarrow> bool" where
  "typed s \<longleftrightarrow>
     (\<forall>r\<in>set (queue (disk_structure_lock s)) \<union> set (granted (disk_structure_lock s)).
        ref_ok (heap s) (next_obj s) r)"

text \<open>The disk structure exists and no more of it is durable than was appended; every flush in
  flight was requested by an allocated object, on the current generation, for entries
  that exist; the flushes of the objects in \<open>P\<close> cover every entry.\<close>

definition gen_ok :: "(obj_ref \<Rightarrow> bool) \<Rightarrow> lba_list_t \<Rightarrow> bool" where
  "gen_ok P s \<longleftrightarrow>
     (case disk_structure s of
        None \<Rightarrow> False
      | Some d \<Rightarrow> durable d \<le> length (entries d) \<and>
          (\<forall>f\<in>set (flushing s).
             (case fst f of
                None \<Rightarrow> False
              | Some a \<Rightarrow> a < next_obj s \<and> (P a \<longrightarrow> snd (snd f) = length (entries d))) \<and>
             fst (snd f) = gen d \<and> snd (snd f) \<le> length (entries d)))"

text \<open>The directory is ready, and its index gives every block id the offset that the replay
  of the log of the current disk structure gives it; a block id that was generated and
  never set is a tombstone in both.\<close>

definition consistent :: "lba_list_t \<Rightarrow> bool" where
  "consistent s \<longleftrightarrow>
     state s = state_ready \<and>
     (case disk_structure s of
        None \<Rightarrow> False
      | Some d \<Rightarrow>
          (case in_memory_index s of
             None \<Rightarrow> False
           | Some idx \<Rightarrow>
               (\<forall>b. index_get_block_offset idx b =
                    index_get_block_offset (index_from_log (entries d)) b)))"

text \<open>The invariant between calls: the readers of the lock are the flushes in flight and the
  grants not yet delivered.\<close>

definition lba_inv :: "(obj_ref \<Rightarrow> bool) \<Rightarrow> lba_list_t \<Rightarrow> bool" where
  "lba_inv P s \<longleftrightarrow>
     lock_ok (length (flushing s)) (disk_structure_lock s) \<and> typed s \<and> gen_ok P s \<and>
     consistent s"

text \<open>The same inside a machine that holds the lock in read mode and has no flush in flight
  yet.\<close>

definition holding_read :: "(obj_ref \<Rightarrow> bool) \<Rightarrow> lba_list_t \<Rightarrow> bool" where
  "holding_read P s \<longleftrightarrow>
     lock_ok (Suc (length (flushing s))) (disk_structure_lock s) \<and> typed s \<and> gen_ok P s \<and>
     consistent s"

text \<open>Inside a collector that holds the lock in write mode: no flush is in flight.\<close>

definition holding_write :: "lba_list_t \<Rightarrow> bool" where
  "holding_write s \<longleftrightarrow>
     write_held (disk_structure_lock s) \<and> flushing s = [] \<and> typed s \<and> consistent s"

text \<open>The objects that wait for the lock, for the delivery of their grant, or for a flush.\<close>

definition waiting :: "lba_list_t \<Rightarrow> obj_ref option list" where
  "waiting s =
     map snd (queue (disk_structure_lock s)) @ map snd (granted (disk_structure_lock s)) @
     map fst (flushing s)"

text \<open>Callback \<open>c\<close> is carried by no object other than the syncer at \<open>a0\<close>; while
  that syncer carries it, it has been invoked \<open>n\<close> times, and otherwise \<open>m\<close> times.\<close>

definition owes :: "callback_ref \<Rightarrow> obj_ref \<Rightarrow> nat \<Rightarrow> nat \<Rightarrow> lba_list_t \<Rightarrow> bool" where
  "owes c a0 n m s \<longleftrightarrow>
     (\<forall>a. a \<noteq> a0 \<longrightarrow> heap s a \<noteq> Some (Syncer (Some c))) \<and>
     (if heap s a0 = Some (Syncer (Some c))
      then a0 < next_obj s \<and> count_list (sync_fired s) c = n
      else count_list (sync_fired s) c = m)"

text \<open>A transition that is not the business of a syncer that carries \<open>c\<close>.\<close>

definition undisturbed :: "callback_ref \<Rightarrow> obj_ref \<Rightarrow> lba_list_t \<Rightarrow> lba_list_t \<Rightarrow> bool" where
  "undisturbed c a0 s s' \<longleftrightarrow>
     (heap s a0 = Some (Syncer (Some c)) \<longrightarrow> heap s' a0 = Some (Syncer (Some c))) \<and>
     next_obj s \<le> next_obj s' \<and>
     count_list (sync_fired s') c = count_list (sync_fired s) c \<and>
     (\<forall>a. heap s' a = Some (Syncer (Some c)) \<longrightarrow> heap s a = Some (Syncer (Some c))) \<and>
     (heap s a0 = Some (Syncer (Some c)) \<longrightarrow> Some a0 \<in> set (waiting s) \<longrightarrow>
        Some a0 \<in> set (waiting s'))"



subsection \<open>Tracking a table from the call of sync to its completion\<close>



text \<open>A transition that leaves the index and the entries of the log alone and requests no
  flush for the syncer \<open>a0\<close>.\<close>

definition keeps :: "obj_ref \<Rightarrow> lba_list_t \<Rightarrow> lba_list_t \<Rightarrow> bool" where
  "keeps a0 s s' \<longleftrightarrow>
     in_memory_index s' = in_memory_index s \<and>
     map_option entries (disk_structure s') = map_option entries (disk_structure s) \<and>
     (\<forall>f\<in>set (flushing s'). fst f = Some a0 \<longrightarrow> f \<in> set (flushing s))"






text \<open>A run that leaves a generated block id unset: two ids are generated, the first is
  set, and the flush of the sync that follows completes inside the call.\<close>

definition unset_id_start :: lba_list_t where
  "unset_id_start = (lba_list_t_new 0)\<lparr>io := [True]\<rparr>"

definition unset_id_history :: "event list" where
  "unset_id_history =
     [Call_start_new 3, Call_gen_block_id, Call_gen_block_id, Call_set_block_offset 0 100]"

(*DEFS-END*)

section \<open>Basic facts\<close>

lemma and_then_simps [simp]:
  "and_then (Inl e) f = Inl e" "and_then (Inr x) f = f x"
  by (simp_all add: and_then_def)

lemma and_then_eq_Inr: "(and_then m f = Inr y) = (\<exists>x. m = Inr x \<and> f x = Inr y)"
  by (cases m) simp_all

lemma start_new_started:
  "start_new fd ((lba_list_t_new em)\<lparr>io := script\<rparr>) = Inr (started fd em script)"
  by (simp add: start_new_def started_def lba_list_t_new_def ds_create_def)

subsection \<open>The index and its log\<close>

lemma index_set_length:
  "length (index_set_block_offset idx b off) = max (length idx) (Suc b)"
  by (auto simp: index_set_block_offset_def)

lemma index_get_set_same [simp]:
  "index_get_block_offset (index_set_block_offset idx b off) b = off"
  by (auto simp: index_get_block_offset_def index_set_block_offset_def)



lemma index_from_log_snoc:
  "index_from_log (es @ [(b, off)]) = index_set_block_offset (index_from_log es) b off"
  by (simp add: index_from_log_def)

lemma index_from_log_copy_take:
  "n \<le> length idx \<Longrightarrow>
   index_from_log (map (\<lambda>j. (j, index_get_block_offset idx j)) [0..<n]) = take n idx"
proof (induction n)
  case 0
  then show ?case by (simp add: index_from_log_def index_new_def)
next
  case (Suc n)
  then have "n < length idx" by simp
  then have "(take n idx @ [DELETE_BLOCK])[length (take n idx) := idx ! n] = take n idx @ [idx ! n]"
    by (simp only: list_update_length)
  with \<open>n < length idx\<close>
  have "index_set_block_offset (take n idx) n (idx ! n) = take (Suc n) idx"
    by (simp add: index_set_block_offset_def take_Suc_conv_app_nth)
  with Suc \<open>n < length idx\<close> show ?case
    by (simp add: index_from_log_snoc index_get_block_offset_def)
qed

lemma index_from_log_copy:
  "index_from_log (map (\<lambda>j. (j, index_get_block_offset idx j)) [0..<length idx]) = idx"
  by (simp add: index_from_log_copy_take)

subsection \<open>The copy loop of the garbage collector\<close>

lemma gc_copy_loop_ready:
  assumes "state s = state_ready" "in_memory_index s = Some idx" "disk_structure s = Some d"
  shows "gc_copy_loop i s =
         Inr (s\<lparr>disk_structure := Some (d\<lparr>entries := entries d @
                 map (\<lambda>j. (j, index_get_block_offset idx j)) [i..<length idx]\<rparr>)\<rparr>)"
  using assms
proof (induction "length idx - i" arbitrary: i s d)
  case 0
  then show ?case
    by (subst gc_copy_loop.simps) (simp add: max_block_id_def index_max_block_id_def)
next
  case (Suc k)
  then have lt: "i < length idx" by simp
  have "gc_copy_loop i s = gc_copy_loop (Suc i)
          (s\<lparr>disk_structure := Some (ds_add_entry d i (index_get_block_offset idx i))\<rparr>)"
    using Suc.prems lt
    by (subst gc_copy_loop.simps)
       (simp add: max_block_id_def index_max_block_id_def get_block_offset_def)
  also have "\<dots> = Inr (s\<lparr>disk_structure := Some (d\<lparr>entries := entries d @
                 map (\<lambda>j. (j, index_get_block_offset idx j)) [i..<length idx]\<rparr>)\<rparr>)"
    using Suc.hyps(2) Suc.prems lt
    by (subst Suc.hyps(1)[where d = "ds_add_entry d i (index_get_block_offset idx i)"])
       (simp_all add: ds_add_entry_def upt_conv_Cons)
  finally show ?case .
qed

lemma gc_replace_and_copy_ready:
  assumes "state s = state_ready" "in_memory_index s = Some idx" "disk_structure s = Some d"
  shows "gc_replace_and_copy s =
         Inr (s\<lparr>destroyed := destroyed s @ [d],
                disk_structure := Some \<lparr>gen = next_gen s,
                  entries = map (\<lambda>j. (j, index_get_block_offset idx j)) [0..<index_max_block_id idx],
                  durable = 0\<rparr>,
                next_gen := Suc (next_gen s)\<rparr>)"
  using assms
  by (simp add: gc_replace_and_copy_def ds_destroy_def ds_create_def index_max_block_id_def
      gc_copy_loop_ready[where idx = idx and d = "\<lparr>gen = next_gen s, entries = [], durable = 0\<rparr>"])

subsection \<open>Unfolding the operations\<close>

lemma case_prod_eq_Inr:
  "((case p of (a, b) \<Rightarrow> f a b) = Inr y) = (\<exists>a b. p = (a, b) \<and> f a b = Inr y)"
  by (cases p) simp

lemmas unfold_Inr = and_then_eq_Inr case_prod_eq_Inr Let_def

lemma gc_downgrade_Inr:
  "gc_downgrade s = Inr s' \<longleftrightarrow>
     (\<exists>s1. unlock_op s = Inr s1 \<and> lock_op rwi_read None s1 = (True, s'))"
  by (auto simp: gc_downgrade_def unfold_Inr split: if_splits)

lemma gc_do_cleanup_Inr:
  "gc_do_cleanup a s = Inr s' \<longleftrightarrow>
     heap s a = Some Gc \<and> (\<exists>s1. unlock_op s = Inr s1 \<and> s' = delete_obj a s1)"
  by (auto simp: gc_do_cleanup_def and_then_eq_Inr split: option.splits fsm.splits)

lemma gc_do_replace_Inr:
  "gc_do_replace_disk_structure a s = Inr s' \<longleftrightarrow>
     heap s a = Some Gc \<and>
     (\<exists>s1 s2 done s3. gc_replace_and_copy s = Inr s1 \<and> gc_downgrade s1 = Inr s2 \<and>
        ds_sync (Some a) s2 = Inr (done, s3) \<and>
        (if done then gc_do_cleanup a s3 = Inr s' else s' = s3))"
  by (auto simp: gc_do_replace_disk_structure_def unfold_Inr
      split: option.splits fsm.splits)

lemma gc_Inr:
  "gc s = Inr s' \<longleftrightarrow>
     (\<exists>ok s2. lock_op rwi_write (Some (next_obj s)) (snd (new_obj Gc s)) = (ok, s2) \<and>
        (if ok then gc_do_replace_disk_structure (next_obj s) s2 = Inr s' else s' = s2))"
  by (auto simp: gc_def new_obj_def unfold_Inr)

lemma syncer_finish_Inr:
  "syncer_finish a s = Inr (r, s') \<longleftrightarrow>
     r \<and> (\<exists>cb s1. heap s a = Some (Syncer cb) \<and> unlock_op s = Inr s1 \<and>
            s' = delete_obj a (call_on_lba_sync cb s1))"
  by (auto simp: syncer_finish_def and_then_eq_Inr split: option.splits fsm.splits)

lemma syncer_do_write_Inr:
  "syncer_do_write a s = Inr (r, s') \<longleftrightarrow>
     (\<exists>done s1. ds_sync (Some a) s = Inr (done, s1) \<and>
        (if done then syncer_finish a s1 = Inr (r, s') else \<not> r \<and> s' = s1))"
  by (auto simp: syncer_do_write_def unfold_Inr)

lemma syncer_do_acquire_lock_Inr:
  "syncer_do_acquire_lock a s = Inr (r, s') \<longleftrightarrow>
     (\<exists>ok s1. lock_op rwi_read (Some a) s = (ok, s1) \<and>
        (if ok then syncer_do_write a s1 = Inr (r, s') else \<not> r \<and> s' = s1))"
  by (auto simp: syncer_do_acquire_lock_def unfold_Inr)

lemma syncer_run_Inr:
  "syncer_run a cb s = Inr (r, s') \<longleftrightarrow>
     (\<exists>s1. syncer_do_acquire_lock a (s\<lparr>heap := (heap s)(a := Some (Syncer None))\<rparr>) = Inr (r, s1) \<and>
        (if r then s' = s1 else s' = s1\<lparr>heap := (heap s1)(a := Some (Syncer cb))\<rparr>))"
proof (cases "syncer_do_acquire_lock a (s\<lparr>heap := (heap s)(a := Some (Syncer None))\<rparr>)")
  case (Inl e)
  then show ?thesis by (simp add: syncer_run_def)
next
  case (Inr p)
  obtain d s1 where p: "p = (d, s1)" by (cases p)
  show ?thesis
    unfolding syncer_run_def Inr p
    by (cases d; cases r) (simp_all add: eq_commute[of s'])
qed

lemma sync_Inr:
  "sync r cb s = Inr (done, s') \<longleftrightarrow>
     state s = state_ready \<and>
     (\<exists>s1. (if r mod 5 = 1 then gc s else Inr s) = Inr s1 \<and>
        syncer_run (next_obj s1) cb (snd (new_obj (Syncer None) s1)) = Inr (done, s'))"
  by (auto simp: sync_def unfold_Inr new_obj_def)


lemma deliver_lock_available_Inr:
  "deliver_lock_available s = Inr s' \<longleftrightarrow>
     (\<exists>m a g. granted (disk_structure_lock s) = (m, Some a) # g \<and>
        (let s1 = s\<lparr>disk_structure_lock := (disk_structure_lock s)\<lparr>granted := g\<rparr>\<rparr>
         in (\<exists>c r. heap s a = Some (Syncer c) \<and> syncer_do_write a s1 = Inr (r, s')) \<or>
            (heap s a = Some Gc \<and> gc_do_replace_disk_structure a s1 = Inr s')))"
  by (auto simp: deliver_lock_available_def syncer_on_lock_available_def gc_on_lock_available_def
      and_then_eq_Inr Let_def split: list.splits option.splits fsm.splits)

lemma deliver_sync_done_Inr:
  "deliver_sync_done k s = Inr s' \<longleftrightarrow>
     k < length (flushing s) \<and>
     (\<exists>a g n. flushing s ! k = (Some a, g, n) \<and>
        (let s1 = flush_completed g n
                    (s\<lparr>flushing := take k (flushing s) @ drop (Suc k) (flushing s)\<rparr>)
         in (\<exists>c r. heap s1 a = Some (Syncer c) \<and> syncer_finish a s1 = Inr (r, s')) \<or>
            (heap s1 a = Some Gc \<and> gc_do_cleanup a s1 = Inr s')))"
  by (auto simp: deliver_sync_done_def syncer_on_sync_lba_def gc_on_sync_lba_def
      and_then_eq_Inr Let_def split: prod.splits option.splits fsm.splits)



subsection \<open>What the sync and gc machinery leaves alone\<close>

lemma index_untouched_refl [simp]: "index_untouched s s"
  by (simp add: index_untouched_def)

lemma index_untouched_trans:
  "index_untouched s s1 \<Longrightarrow> index_untouched s1 s2 \<Longrightarrow> index_untouched s s2"
  by (simp add: index_untouched_def)

lemma lock_op_untouched: "lock_op m cb s = (ok, s') \<Longrightarrow> index_untouched s s'"
  by (auto simp: lock_op_def index_untouched_def split: prod.splits)

lemma unlock_op_untouched: "unlock_op s = Inr s' \<Longrightarrow> index_untouched s s'"
  by (auto simp: unlock_op_def index_untouched_def and_then_eq_Inr)

lemma ds_sync_untouched: "ds_sync cb s = Inr (done, s') \<Longrightarrow> index_untouched s s'"
  by (auto simp: ds_sync_def io_next_def index_untouched_def
      split: option.splits prod.splits list.splits if_splits)

lemma gc_copy_loop_untouched: "gc_copy_loop i s = Inr s' \<Longrightarrow> index_untouched s s'"
proof (induction i s rule: gc_copy_loop.induct)
  case (1 i s)
  show ?case
  proof (cases "max_block_id s")
    case (Inl e)
    with "1.prems" show ?thesis by (subst (asm) gc_copy_loop.simps) simp
  next
    case (Inr m)
    show ?thesis
    proof (cases "i < m")
      case False
      with Inr "1.prems" show ?thesis by (subst (asm) gc_copy_loop.simps) simp
    next
      case True
      from "1.prems" Inr True obtain off d where
        off: "get_block_offset i s = Inr off" and d: "disk_structure s = Some d"
        and rec: "gc_copy_loop (Suc i) (s\<lparr>disk_structure := Some (ds_add_entry d i off)\<rparr>) = Inr s'"
        by (subst (asm) gc_copy_loop.simps) (auto split: sum.splits option.splits)
      from "1.IH"[OF Inr True off d rec]
      show ?thesis by (simp add: index_untouched_def)
    qed
  qed
qed

lemma gc_replace_and_copy_untouched: "gc_replace_and_copy s = Inr s' \<Longrightarrow> index_untouched s s'"
  by (auto simp: gc_replace_and_copy_def and_then_eq_Inr ds_destroy_def ds_create_def
      index_untouched_def split: option.splits dest!: gc_copy_loop_untouched)

lemma gc_downgrade_untouched: "gc_downgrade s = Inr s' \<Longrightarrow> index_untouched s s'"
  by (auto simp: gc_downgrade_Inr
      dest!: unlock_op_untouched lock_op_untouched intro: index_untouched_trans)

lemma delete_obj_untouched [simp]: "index_untouched s (delete_obj a s)"
  by (simp add: delete_obj_def index_untouched_def)

lemma gc_do_cleanup_untouched: "gc_do_cleanup a s = Inr s' \<Longrightarrow> index_untouched s s'"
  by (auto simp: gc_do_cleanup_Inr
      dest!: unlock_op_untouched intro: index_untouched_trans)

lemma gc_do_replace_untouched:
  "gc_do_replace_disk_structure a s = Inr s' \<Longrightarrow> index_untouched s s'"
  by (auto simp: gc_do_replace_Inr split: if_splits
      dest!: gc_replace_and_copy_untouched gc_downgrade_untouched ds_sync_untouched
             gc_do_cleanup_untouched
      intro: index_untouched_trans)

lemma gc_untouched: "gc s = Inr s' \<Longrightarrow> index_untouched s s'"
  by (auto simp: gc_Inr new_obj_def index_untouched_def
      split: if_splits dest!: gc_do_replace_untouched lock_op_untouched)

lemma syncer_finish_untouched: "syncer_finish a s = Inr (r, s') \<Longrightarrow> index_untouched s s'"
  by (auto simp: syncer_finish_Inr delete_obj_def call_on_lba_sync_def index_untouched_def
      split: option.splits dest!: unlock_op_untouched)

lemma syncer_do_write_untouched: "syncer_do_write a s = Inr (r, s') \<Longrightarrow> index_untouched s s'"
  by (auto simp: syncer_do_write_Inr split: if_splits
      dest!: ds_sync_untouched syncer_finish_untouched intro: index_untouched_trans)

lemma syncer_do_acquire_lock_untouched:
  "syncer_do_acquire_lock a s = Inr (r, s') \<Longrightarrow> index_untouched s s'"
  by (auto simp: syncer_do_acquire_lock_Inr split: if_splits
      dest!: lock_op_untouched syncer_do_write_untouched intro: index_untouched_trans)

lemma syncer_run_untouched: "syncer_run a cb s = Inr (r, s') \<Longrightarrow> index_untouched s s'"
  by (auto simp: syncer_run_Inr index_untouched_def split: if_splits
      dest!: syncer_do_acquire_lock_untouched)

lemma sync_untouched: "sync r cb s = Inr (done, s') \<Longrightarrow> index_untouched s s'"
  by (auto simp: sync_Inr new_obj_def index_untouched_def
      split: if_splits dest!: gc_untouched syncer_run_untouched)

lemma deliver_lock_available_untouched:
  "deliver_lock_available s = Inr s' \<Longrightarrow> index_untouched s s'"
  by (auto simp: deliver_lock_available_Inr Let_def index_untouched_def
      dest!: syncer_do_write_untouched gc_do_replace_untouched)

lemma flush_completed_untouched [simp]: "index_untouched s (flush_completed g n s)"
  by (simp add: flush_completed_def index_untouched_def split: option.splits)

lemma deliver_sync_done_untouched:
  "deliver_sync_done k s = Inr s' \<Longrightarrow> index_untouched s s'"
  by (auto simp: deliver_sync_done_Inr Let_def flush_completed_def index_untouched_def
      split: option.splits if_splits
      dest!: syncer_finish_untouched gc_do_cleanup_untouched)



subsection \<open>The lock\<close>

lemma grant_waiting_readers:
  "\<not> writer l \<Longrightarrow> \<forall>r\<in>set q. fst r \<noteq> rwi_write \<Longrightarrow>
   grant_waiting q l = l\<lparr>readers := readers l + length q, granted := granted l @ q, queue := []\<rparr>"
proof (induction q arbitrary: l)
  case Nil
  then show ?case by simp
next
  case (Cons r q)
  obtain m cb where r: "r = (m, cb)" by (cases r)
  with Cons.prems have m: "m = rwi_read" by (cases m) auto
  have "grant_waiting q ((take_lock m l)\<lparr>granted := granted l @ [(m, cb)]\<rparr>) =
        ((take_lock m l)\<lparr>granted := granted l @ [(m, cb)]\<rparr>)
          \<lparr>readers := readers ((take_lock m l)\<lparr>granted := granted l @ [(m, cb)]\<rparr>) + length q,
           granted := granted ((take_lock m l)\<lparr>granted := granted l @ [(m, cb)]\<rparr>) @ q,
           queue := []\<rparr>"
    using Cons.prems by (intro Cons.IH) (simp_all add: m)
  with Cons.prems show ?case by (simp add: r m)
qed

lemma unlock_writer_readers_only:
  assumes "writer l" "\<forall>r\<in>set (queue l). fst r \<noteq> rwi_write"
  shows "rwi_unlock l =
         Inr (l\<lparr>writer := False, readers := readers l + length (queue l),
                granted := granted l @ queue l, queue := []\<rparr>)"
  using assms by (simp add: rwi_unlock_def process_queue_def grant_waiting_readers)

lemma try_lock_writer [simp]: "writer l \<Longrightarrow> \<not> try_lock m l"
  by (cases m) simp_all

lemma grant_waiting_writer:
  "writer l \<Longrightarrow> grant_waiting q l = l\<lparr>queue := q\<rparr>"
  by (cases q) auto

lemma unlock_writer_then_writer:
  assumes "writer l" "readers l = 0" "queue l = (rwi_write, cb) # q"
  shows "rwi_unlock l = Inr (l\<lparr>granted := granted l @ [(rwi_write, cb)], queue := q\<rparr>)"
proof -
  have "grant_waiting q (l\<lparr>writer := True, granted := granted l @ [(rwi_write, cb)]\<rparr>) =
        l\<lparr>writer := True, granted := granted l @ [(rwi_write, cb)], queue := q\<rparr>"
    by (simp add: grant_waiting_writer)
  then show ?thesis
    using assms by (simp add: rwi_unlock_def process_queue_def)
qed

subsection \<open>The steps of the garbage collector\<close>





lemma gc_immediate:
  "try_lock rwi_write (disk_structure_lock s) \<Longrightarrow>
   gc s = gc_do_replace_disk_structure (next_obj s)
            (s\<lparr>heap := (heap s)(next_obj s := Some Gc), next_obj := Suc (next_obj s),
               disk_structure_lock := take_lock rwi_write (disk_structure_lock s)\<rparr>)"
  by (simp add: gc_def new_obj_def lock_op_def rwi_lock_def)

lemma lock_available_gc:
  "granted (disk_structure_lock s) = (m, Some a) # g \<Longrightarrow> heap s a = Some Gc \<Longrightarrow>
   deliver_lock_available s =
     gc_do_replace_disk_structure a
       (s\<lparr>disk_structure_lock := (disk_structure_lock s)\<lparr>granted := g\<rparr>\<rparr>)"
  by (simp add: deliver_lock_available_def gc_on_lock_available_def)

subsection \<open>What keeps the current generation\<close>

lemma same_log_refl [simp]: "same_log s s"
  by (simp add: same_log_def)

lemma same_log_trans: "same_log s s1 \<Longrightarrow> same_log s1 s2 \<Longrightarrow> same_log s s2"
  by (simp add: same_log_def)

lemma lock_op_same_log: "lock_op m cb s = (ok, s') \<Longrightarrow> same_log s s'"
  by (auto simp: lock_op_def same_log_def split: prod.splits)

lemma unlock_op_same_log: "unlock_op s = Inr s' \<Longrightarrow> same_log s s'"
  by (auto simp: unlock_op_def same_log_def and_then_eq_Inr)

lemma ds_sync_same_log: "ds_sync cb s = Inr (done, s') \<Longrightarrow> same_log s s'"
  by (auto simp: ds_sync_def io_next_def same_log_def
      split: option.splits prod.splits list.splits if_splits)

lemma gc_downgrade_same_log: "gc_downgrade s = Inr s' \<Longrightarrow> same_log s s'"
  by (auto simp: gc_downgrade_Inr
      dest!: unlock_op_same_log lock_op_same_log intro: same_log_trans)

lemma gc_do_cleanup_same_log: "gc_do_cleanup a s = Inr s' \<Longrightarrow> same_log s s'"
  by (auto simp: gc_do_cleanup_Inr delete_obj_def same_log_def dest!: unlock_op_same_log)

lemma syncer_finish_same_log: "syncer_finish a s = Inr (r, s') \<Longrightarrow> same_log s s'"
  by (auto simp: syncer_finish_Inr delete_obj_def call_on_lba_sync_def same_log_def
      split: option.splits dest!: unlock_op_same_log)

lemma syncer_do_write_same_log: "syncer_do_write a s = Inr (r, s') \<Longrightarrow> same_log s s'"
  by (auto simp: syncer_do_write_Inr split: if_splits
      dest!: ds_sync_same_log syncer_finish_same_log intro: same_log_trans)

lemma gc_do_replace_log:
  assumes "state s = state_ready" "in_memory_index s = Some idx" "disk_structure s = Some d"
    "gc_do_replace_disk_structure a s = Inr s'"
  shows "destroyed s' = destroyed s @ [d] \<and>
         (\<exists>d'. disk_structure s' = Some d' \<and> gen d' = next_gen s \<and>
            entries d' = map (\<lambda>j. (j, index_get_block_offset idx j)) [0..<index_max_block_id idx])"
proof -
  from assms(4) obtain s1 s2 fin s3 where
    s1: "gc_replace_and_copy s = Inr s1" and s2: "gc_downgrade s1 = Inr s2"
    and s3: "ds_sync (Some a) s2 = Inr (fin, s3)"
    and s': "if fin then gc_do_cleanup a s3 = Inr s' else s' = s3"
    by (auto simp: gc_do_replace_Inr)
  have "same_log s3 s'"
    using s' by (auto split: if_splits dest: gc_do_cleanup_same_log)
  with s2 s3 have "same_log s1 s'"
    by (blast intro: same_log_trans dest: gc_downgrade_same_log ds_sync_same_log)
  then show ?thesis
    using s1 by (auto simp: gc_replace_and_copy_ready[OF assms(1,2,3)] same_log_def)
qed

lemma flush_completed_same_log [simp]: "same_log s (flush_completed g n s)"
  by (simp add: flush_completed_def same_log_def split: option.splits)


subsection \<open>Steps and the lifecycle\<close>


lemma start_new_Inr:
  "start_new fd s = Inr s' \<Longrightarrow> state s = state_unstarted \<and> state s' = state_ready"
  by (auto simp: start_new_def ds_create_def split: if_splits)

lemma starter_finish_Inr:
  "starter_finish a s = Inr s' \<longleftrightarrow>
     (\<exists>callback d. heap s a = Some (Starter callback) \<and> disk_structure s = Some d \<and>
        s' = delete_obj a (call_on_lba_ready callback
               (s\<lparr>in_memory_index := Some (index_from_log (entries d)), state := state_ready\<rparr>)))"
  by (auto simp: starter_finish_def split: option.splits fsm.splits)

lemma starter_finish_ready: "starter_finish a s = Inr s' \<Longrightarrow> state s' = state_ready"
  by (auto simp: starter_finish_Inr delete_obj_def call_on_lba_ready_def split: option.splits)

lemma start_Inr_state:
  "start fd mb cb s = Inr (r, s') \<Longrightarrow>
   state s = state_unstarted \<and> (state s' = state_ready \<or> state s' = state_starting_up)"
  by (auto simp: start_def starter_run_def ds_load_def io_next_def new_obj_def unfold_Inr
      split: if_splits list.splits dest: starter_finish_ready)

lemma gen_block_id_Inr:
  "gen_block_id s = Inr (b, s') \<longleftrightarrow>
     state s = state_ready \<and>
     (\<exists>idx. in_memory_index s = Some idx \<and> b = length idx \<and>
        s' = s\<lparr>in_memory_index := Some (idx @ [DELETE_BLOCK])\<rparr>)"
  by (auto simp: gen_block_id_def index_gen_block_id_def split: option.splits)

lemma set_block_offset_Inr:
  "set_block_offset b off s = Inr s' \<longleftrightarrow>
     state s = state_ready \<and>
     (\<exists>idx d. in_memory_index s = Some idx \<and> disk_structure s = Some d \<and>
        s' = s\<lparr>in_memory_index := Some (index_set_block_offset idx b off),
               disk_structure := Some (d\<lparr>entries := entries d @ [(b, off)]\<rparr>)\<rparr>)"
  by (auto simp: set_block_offset_def add_entry_def ds_add_entry_def split: option.splits)

lemma delete_block_Inr:
  "delete_block b s = Inr s' \<longleftrightarrow>
     state s = state_ready \<and>
     (\<exists>idx d. in_memory_index s = Some idx \<and> disk_structure s = Some d \<and>
        s' = s\<lparr>in_memory_index := Some (index_set_block_offset idx b DELETE_BLOCK),
               disk_structure := Some (d\<lparr>entries := entries d @ [(b, DELETE_BLOCK)]\<rparr>)\<rparr>)"
  by (auto simp: delete_block_def index_delete_block_def add_entry_def ds_add_entry_def
      split: option.splits)

lemma shutdown_Inr:
  "shutdown s = Inr s' \<longleftrightarrow>
     state s = state_ready \<and> disk_structure s \<noteq> None \<and>
     s' = s\<lparr>in_memory_index := None, disk_structure := None, state := state_shut_down\<rparr>"
  by (auto simp: shutdown_def split: option.splits)

lemma deliver_load_done_Inr:
  "deliver_load_done s = Inr s' \<longleftrightarrow>
     (\<exists>a rest. loading s = Some a # rest \<and> starter_finish a (s\<lparr>loading := rest\<rparr>) = Inr s')"
  by (auto simp: deliver_load_done_def starter_on_load_lba_def split: list.splits option.splits)



lemma settled_step:
  assumes "step e s = Inr s'" "state s \<noteq> state_unstarted" "loading s = []"
  shows "state s' \<noteq> state_unstarted \<and> loading s' = [] \<and> ready_fired s' = ready_fired s"
proof (cases e)
  case (Call_start_new fd)
  with assms show ?thesis by (auto dest: start_new_Inr)
next
  case (Call_start fd mb cb)
  with assms show ?thesis by (auto simp: and_then_eq_Inr dest: start_Inr_state)
next
  case Call_gen_block_id
  with assms show ?thesis by (auto simp: and_then_eq_Inr gen_block_id_Inr)
next
  case (Call_set_block_offset b off)
  with assms show ?thesis by (auto simp: set_block_offset_Inr)
next
  case (Call_delete_block b)
  with assms show ?thesis by (auto simp: delete_block_Inr)
next
  case (Call_sync r cb)
  with assms show ?thesis
    by (auto simp: and_then_eq_Inr index_untouched_def dest!: sync_untouched)
next
  case Call_shutdown
  with assms show ?thesis by (auto simp: shutdown_Inr)
next
  case Lock_available
  with assms show ?thesis
    by (auto simp: index_untouched_def dest!: deliver_lock_available_untouched)
next
  case (Sync_done k)
  with assms show ?thesis
    by (auto simp: index_untouched_def dest!: deliver_sync_done_untouched)
next
  case Load_done
  with assms show ?thesis by (auto simp: deliver_load_done_Inr)
qed

lemma settled_run:
  "run es s = Inr s' \<Longrightarrow> state s \<noteq> state_unstarted \<Longrightarrow> loading s = [] \<Longrightarrow>
   ready_fired s' = ready_fired s"
proof (induction es arbitrary: s)
  case Nil
  then show ?case by simp
next
  case (Cons e es)
  from Cons.prems(1) obtain s1 where s1: "step e s = Inr s1" "run es s1 = Inr s'"
    by (auto simp: and_then_eq_Inr)
  from settled_step[OF s1(1) Cons.prems(2,3)] Cons.IH[OF s1(2)] show ?case by simp
qed

lemma starting_up_step:
  assumes "step e s = Inr s'" "state s = state_starting_up" "e \<noteq> Load_done"
  shows "state s' = state_starting_up \<and> ready_fired s' = ready_fired s"
proof (cases e)
  case (Call_start_new fd)
  with assms show ?thesis by (auto dest: start_new_Inr)
next
  case (Call_start fd mb cb)
  with assms show ?thesis by (auto simp: and_then_eq_Inr dest: start_Inr_state)
next
  case Call_gen_block_id
  with assms show ?thesis by (auto simp: and_then_eq_Inr gen_block_id_Inr)
next
  case (Call_set_block_offset b off)
  with assms show ?thesis by (auto simp: set_block_offset_Inr)
next
  case (Call_delete_block b)
  with assms show ?thesis by (auto simp: delete_block_Inr)
next
  case (Call_sync r cb)
  with assms show ?thesis by (auto simp: and_then_eq_Inr sync_Inr)
next
  case Call_shutdown
  with assms show ?thesis by (auto simp: shutdown_Inr)
next
  case Lock_available
  with assms show ?thesis
    by (auto simp: index_untouched_def dest!: deliver_lock_available_untouched)
next
  case (Sync_done k)
  with assms show ?thesis
    by (auto simp: index_untouched_def dest!: deliver_sync_done_untouched)
next
  case Load_done
  with assms show ?thesis by simp
qed

lemma starting_up_run:
  "run es s = Inr s' \<Longrightarrow> state s = state_starting_up \<Longrightarrow> Load_done \<notin> set es \<Longrightarrow>
   state s' = state_starting_up \<and> ready_fired s' = ready_fired s"
proof (induction es arbitrary: s)
  case Nil
  then show ?case by simp
next
  case (Cons e es)
  from Cons.prems(1) obtain s1 where s1: "step e s = Inr s1" "run es s1 = Inr s'"
    by (auto simp: and_then_eq_Inr)
  from Cons.prems have "e \<noteq> Load_done" "Load_done \<notin> set es" by auto
  with starting_up_step[OF s1(1) Cons.prems(2)] Cons.IH[OF s1(2)] show ?case by simp
qed

lemma start_unstarted:
  assumes "state s = state_unstarted"
  shows "start fd mb cb s =
     (if io s \<noteq> [] \<and> hd (io s)
      then and_then (starter_finish (next_obj s) (start_loading fd mb s)) (\<lambda>s2. Inr (True, s2))
      else Inr (False, (start_loading fd mb s)
                  \<lparr>loading := loading s @ [Some (next_obj s)],
                   heap := (heap s)(next_obj s := Some (Starter cb))\<rparr>))"
  using assms
  by (cases "io s")
     (auto simp: start_def starter_run_def ds_load_def io_next_def new_obj_def start_loading_def
       fun_upd_idem)

subsection \<open>Generated ids and copied entries\<close>


lemma filter_copy_entries:
  "b < n \<Longrightarrow> filter (\<lambda>e. fst e = b) (map (\<lambda>j. (j, f j)) [0..<n]) = [(b, f b)]"
proof (induction n)
  case 0
  then show ?case by simp
next
  case (Suc n)
  show ?case
  proof (cases "b = n")
    case True
    have "filter (\<lambda>e. fst e = n) (map (\<lambda>j. (j, f j)) [0..<n]) = []"
      by (auto simp: filter_empty_conv)
    with True show ?thesis by simp
  next
    case False
    with Suc show ?thesis by simp
  qed
qed

lemma index_set_nth_other:
  "b < length idx \<Longrightarrow> b' \<noteq> b \<Longrightarrow>
   b < length (index_set_block_offset idx b' off') \<and> index_set_block_offset idx b' off' ! b = idx ! b"
  by (auto simp: index_set_block_offset_def nth_append)

lemma index_set_nth_same:
  "b < length (index_set_block_offset idx b off) \<and> index_set_block_offset idx b off ! b = off"
  by (auto simp: index_set_block_offset_def nth_list_update)

lemma holds_offset_untouched: "index_untouched s s' \<Longrightarrow> holds_offset b off s \<Longrightarrow> holds_offset b off s'"
  by (simp add: index_untouched_def holds_offset_def)

lemma holds_offset_step:
  assumes "step e s = Inr s'" "\<not> overwrites b e" "holds_offset b off s"
  shows "holds_offset b off s'"
proof (cases e)
  case Call_gen_block_id
  with assms show ?thesis
    by (auto simp: and_then_eq_Inr gen_block_id_Inr holds_offset_def nth_append)
next
  case (Call_set_block_offset b' off')
  with assms show ?thesis
    by (auto simp: set_block_offset_Inr holds_offset_def index_set_nth_other)
next
  case (Call_delete_block b')
  with assms show ?thesis
    by (auto simp: delete_block_Inr holds_offset_def index_set_nth_other)
next
  case (Call_sync r cb)
  with assms show ?thesis
    by (auto simp: and_then_eq_Inr dest!: sync_untouched intro: holds_offset_untouched)
next
  case Lock_available
  with assms show ?thesis
    by (auto dest!: deliver_lock_available_untouched intro: holds_offset_untouched)
next
  case (Sync_done k)
  with assms show ?thesis
    by (auto dest!: deliver_sync_done_untouched intro: holds_offset_untouched)
qed (use assms in simp_all)

lemma holds_offset_run:
  "run es s = Inr s' \<Longrightarrow> \<forall>e\<in>set es. \<not> overwrites b e \<Longrightarrow> holds_offset b off s \<Longrightarrow>
   holds_offset b off s'"
proof (induction es arbitrary: s)
  case Nil
  then show ?case by simp
next
  case (Cons e es)
  from Cons.prems(1) obtain s1 where s1: "step e s = Inr s1" "run es s1 = Inr s'"
    by (auto simp: and_then_eq_Inr)
  with Cons show ?case by (auto dest: holds_offset_step)
qed

lemma replace_copies_held_offset:
  assumes "holds_offset b off t" "gc_do_replace_disk_structure a t = Inr s3"
  shows "\<exists>d. disk_structure s3 = Some d \<and> gen d = next_gen t \<and>
              filter (\<lambda>e. fst e = b) (entries d) = [(b, off)] \<and>
              index_get_block_offset (index_from_log (entries d)) b = off \<and>
              get_block_offset b s3 = Inr off"
proof -
  from assms(1) obtain idx where idx: "state t = state_ready" "in_memory_index t = Some idx"
    "b < length idx" "idx ! b = off"
    by (auto simp: holds_offset_def split: option.splits)
  from assms(2) obtain d2 where d2: "disk_structure t = Some d2"
    by (auto simp: gc_do_replace_Inr gc_replace_and_copy_def ds_destroy_def and_then_eq_Inr
        split: option.splits)
  from gc_do_replace_log[OF idx(1,2) d2 assms(2)] obtain d where
    d: "disk_structure s3 = Some d" "gen d = next_gen t"
       "entries d = map (\<lambda>j. (j, index_get_block_offset idx j)) [0..<index_max_block_id idx]"
    by blast
  have "holds_offset b off s3"
    using gc_do_replace_untouched[OF assms(2)] assms(1) by (rule holds_offset_untouched)
  then have "get_block_offset b s3 = Inr off"
    by (auto simp: holds_offset_def get_block_offset_def index_get_block_offset_def
        split: option.splits)
  with d idx show ?thesis
    by (simp add: filter_copy_entries index_max_block_id_def index_from_log_copy)
       (simp add: index_get_block_offset_def)
qed

subsection \<open>Evaluation at concrete directories\<close>

lemmas started_simps =
  started_def ds_create_def lba_list_t_new_def index_new_def rwi_lock_new_def

lemma Inr_caseE: "(case x of Inl e \<Rightarrow> False | Inr s \<Rightarrow> P s) \<Longrightarrow> \<exists>s. x = Inr s \<and> P s"
  by (cases x) auto

lemma io_next_eq: "io_next s = (io s \<noteq> [] \<and> hd (io s), s\<lparr>io := tl (io s)\<rparr>)"
  by (cases "io s") (simp_all add: io_next_def)

lemma ds_sync_Inr:
  "ds_sync cb s = Inr (fin, s') \<longleftrightarrow>
     (\<exists>d. disk_structure s = Some d \<and> fin = (io s \<noteq> [] \<and> hd (io s)) \<and>
        s' = (if fin
              then s\<lparr>io := tl (io s), disk_structure := Some (d\<lparr>durable := length (entries d)\<rparr>)\<rparr>
              else s\<lparr>io := tl (io s),
                     flushing := flushing s @ [(cb, gen d, length (entries d))]\<rparr>))"
  by (cases "disk_structure s") (auto simp: ds_sync_def io_next_eq)


lemma unlock_op_Inr:
  "unlock_op s = Inr s' \<longleftrightarrow>
     (writer (disk_structure_lock s) \<or> 0 < readers (disk_structure_lock s)) \<and>
     s' = s\<lparr>disk_structure_lock :=
              process_queue (if writer (disk_structure_lock s)
                             then (disk_structure_lock s)\<lparr>writer := False\<rparr>
                             else (disk_structure_lock s)\<lparr>readers := readers (disk_structure_lock s) - 1\<rparr>)\<rparr>"
  by (auto simp: unlock_op_def rwi_unlock_def)

lemma lock_op_eq:
  "lock_op m cb s =
     (if try_lock m (disk_structure_lock s)
      then (True, s\<lparr>disk_structure_lock := take_lock m (disk_structure_lock s)\<rparr>)
      else (False, s\<lparr>disk_structure_lock :=
              (disk_structure_lock s)\<lparr>queue := queue (disk_structure_lock s) @ [(m, cb)]\<rparr>\<rparr>))"
  by (simp add: lock_op_def rwi_lock_def)

subsection \<open>Lock accounting\<close>

lemma filter_none_nil:
  "length (filter (\<lambda>r. fst r = rwi_read) g) = 0 \<Longrightarrow>
   length (filter (\<lambda>r. fst r = rwi_write) g) = 0 \<Longrightarrow> g = []"
proof (cases g)
  case (Cons r g')
  assume "length (filter (\<lambda>r. fst r = rwi_read) g) = 0"
    "length (filter (\<lambda>r. fst r = rwi_write) g) = 0"
  with Cons show ?thesis by (cases "fst r") auto
qed simp

lemma grant_waiting_lock_ok: "lock_ok k l \<Longrightarrow> lock_ok k (grant_waiting q l)"
proof (induction q arbitrary: l)
  case Nil
  have "lock_ok k (l\<lparr>queue := []\<rparr>) = lock_ok k l"
    unfolding lock_ok_def by simp
  with Nil show ?case by simp
next
  case (Cons r q)
  obtain m cb where r: "r = (m, cb)" by (cases r)
  show ?case
  proof (cases "try_lock m l")
    case False
    have "lock_ok k (l\<lparr>queue := (m, cb) # q\<rparr>) = lock_ok k l"
      unfolding lock_ok_def by simp
    with False Cons.prems show ?thesis by (simp add: r)
  next
    case True
    have "lock_ok k ((take_lock m l)\<lparr>granted := granted l @ [(m, cb)]\<rparr>)"
    proof (cases m)
      case rwi_read
      with True have "\<not> writer l" by simp
      with Cons.prems show ?thesis by (simp add: rwi_read lock_ok_def)
    next
      case rwi_write
      with True have "\<not> writer l" "readers l = 0" by simp_all
      with Cons.prems show ?thesis by (simp add: rwi_write lock_ok_def)
    qed
    from Cons.IH[OF this] True show ?thesis by (simp add: r)
  qed
qed

lemma process_queue_lock_ok: "lock_ok k l \<Longrightarrow> lock_ok k (process_queue l)"
  by (simp add: process_queue_def grant_waiting_lock_ok)

lemma lock_ok_release_reader:
  "lock_ok (Suc k) l \<Longrightarrow> \<not> writer l \<and> 0 < readers l \<and>
     lock_ok k (process_queue (l\<lparr>readers := readers l - 1\<rparr>))"
proof -
  assume a: "lock_ok (Suc k) l"
  then have w: "\<not> writer l" "0 < readers l" by (auto simp: lock_ok_def)
  with a have "lock_ok k (l\<lparr>readers := readers l - 1\<rparr>)" by (simp add: lock_ok_def)
  with w show ?thesis by (simp add: process_queue_lock_ok)
qed

lemma write_held_release:
  "write_held l \<Longrightarrow> lock_ok 0 (process_queue (l\<lparr>writer := False\<rparr>))"
  by (rule process_queue_lock_ok) (simp add: write_held_def lock_ok_def)

lemma lock_ok_take_read: "lock_ok k l \<Longrightarrow> \<not> writer l \<Longrightarrow> lock_ok (Suc k) (take_lock rwi_read l)"
  by (simp add: lock_ok_def)

lemma lock_ok_take_write:
  "lock_ok k l \<Longrightarrow> try_lock rwi_write l \<Longrightarrow> k = 0 \<and> write_held (take_lock rwi_write l)"
  by (auto simp: lock_ok_def write_held_def intro: filter_none_nil)

lemma lock_ok_queue [simp]: "lock_ok k (l\<lparr>queue := q\<rparr>) = lock_ok k l"
  by (simp add: lock_ok_def)

lemma lock_ok_pop_read:
  "lock_ok k l \<Longrightarrow> granted l = (rwi_read, cb) # g \<Longrightarrow> lock_ok (Suc k) (l\<lparr>granted := g\<rparr>)"
  by (auto simp: lock_ok_def)

lemma lock_ok_pop_write:
  "lock_ok k l \<Longrightarrow> granted l = (rwi_write, cb) # g \<Longrightarrow> k = 0 \<and> write_held (l\<lparr>granted := g\<rparr>)"
  by (auto simp: lock_ok_def write_held_def split: if_splits intro: filter_none_nil)

lemma gen_ok_iff:
  "gen_ok P s \<longleftrightarrow>
     (\<exists>d. disk_structure s = Some d \<and> durable d \<le> length (entries d) \<and>
        (\<forall>f\<in>set (flushing s). \<exists>a. fst f = Some a \<and> a < next_obj s \<and>
            fst (snd f) = gen d \<and> snd (snd f) \<le> length (entries d) \<and>
            (P a \<longrightarrow> snd (snd f) = length (entries d))))"
proof (cases "disk_structure s")
  case None
  then show ?thesis by (simp add: gen_ok_def)
next
  case (Some d)
  have "(case fst f of None \<Rightarrow> False
         | Some a \<Rightarrow> a < next_obj s \<and> (P a \<longrightarrow> snd (snd f) = length (entries d))) \<longleftrightarrow>
        (\<exists>a. fst f = Some a \<and> a < next_obj s \<and> (P a \<longrightarrow> snd (snd f) = length (entries d)))"
    for f :: "obj_ref option \<times> nat \<times> nat"
    by (cases "fst f") simp_all
  then show ?thesis by (auto simp: gen_ok_def Some)
qed

lemma consistent_iff:
  "consistent s \<longleftrightarrow>
     state s = state_ready \<and>
     (\<exists>d idx. disk_structure s = Some d \<and> in_memory_index s = Some idx \<and>
        (\<forall>b. index_get_block_offset idx b =
             index_get_block_offset (index_from_log (entries d)) b))"
  by (simp add: consistent_def split: option.splits)

lemma gen_ok_frame:
  "disk_structure s' = disk_structure s \<Longrightarrow> flushing s' = flushing s \<Longrightarrow>
   next_obj s' = next_obj s \<Longrightarrow> gen_ok P s' = gen_ok P s"
  by (simp add: gen_ok_iff)


lemma consistent_frame:
  "state s' = state s \<Longrightarrow> in_memory_index s' = in_memory_index s \<Longrightarrow>
   disk_structure s' = disk_structure s \<Longrightarrow> consistent s' = consistent s"
  by (simp add: consistent_iff)

subsection \<open>Typing of the lock's references\<close>

lemma grant_waiting_refs:
  "set (queue (grant_waiting q l)) \<union> set (granted (grant_waiting q l)) = set q \<union> set (granted l)"
proof (induction q arbitrary: l)
  case Nil
  then show ?case by simp
next
  case (Cons r q)
  obtain m cb where r: "r = (m, cb)" by (cases r)
  show ?case
  proof (cases "try_lock m l")
    case True
    have "granted ((take_lock m l)\<lparr>granted := granted l @ [(m, cb)]\<rparr>) = granted l @ [(m, cb)]"
      by simp
    with Cons.IH[of "(take_lock m l)\<lparr>granted := granted l @ [(m, cb)]\<rparr>"] True
    show ?thesis by (auto simp: r)
  next
    case False
    then show ?thesis by (simp add: r)
  qed
qed

lemma process_queue_refs:
  "set (queue (process_queue l)) \<union> set (granted (process_queue l)) = set (queue l) \<union> set (granted l)"
  by (simp add: process_queue_def grant_waiting_refs)

lemma typed_unlock_op: "unlock_op s = Inr s' \<Longrightarrow> typed s \<Longrightarrow> typed s'"
  by (auto simp: unlock_op_Inr typed_def process_queue_refs)

lemma ref_ok_delete: "ref_ok h N r \<Longrightarrow> ref_ok (h(a := None)) N r"
  by (auto simp: ref_ok_def split: option.splits fsm.splits)

lemma ref_ok_new: "ref_ok h N r \<Longrightarrow> ref_ok (h(N := x)) (Suc N) r"
  by (auto simp: ref_ok_def split: option.splits fsm.splits)

lemma ref_ok_syncer:
  "ref_ok h N r \<Longrightarrow> h a = Some (Syncer c) \<Longrightarrow> ref_ok (h(a := Some (Syncer c'))) N r"
  by (auto simp: ref_ok_def split: option.splits fsm.splits)

lemma typed_delete_obj: "typed s \<Longrightarrow> typed (delete_obj a s)"
  by (auto simp: typed_def delete_obj_def intro: ref_ok_delete)

lemma typed_frame:
  "disk_structure_lock s' = disk_structure_lock s \<Longrightarrow> heap s' = heap s \<Longrightarrow>
   next_obj s' = next_obj s \<Longrightarrow> typed s' = typed s"
  by (simp add: typed_def)

lemma unlock_op_holding_read:
  assumes "holding_read P s" "unlock_op s = Inr s'"
  shows "lba_inv P s'"
proof -
  from assms(1) have l: "lock_ok (Suc (length (flushing s))) (disk_structure_lock s)"
    by (simp add: holding_read_def)
  note r = lock_ok_release_reader[OF l]
  from assms(2) r have s': "s' = s\<lparr>disk_structure_lock :=
      process_queue ((disk_structure_lock s)\<lparr>readers := readers (disk_structure_lock s) - 1\<rparr>)\<rparr>"
    by (simp add: unlock_op_Inr)
  have "typed s'" using assms by (auto simp: holding_read_def intro: typed_unlock_op)
  moreover have "gen_ok P s'" "consistent s'"
    using assms(1) by (simp_all add: s' holding_read_def gen_ok_iff consistent_iff)
  moreover have "lock_ok (length (flushing s')) (disk_structure_lock s')"
    using r by (simp add: s')
  ultimately show ?thesis by (simp add: lba_inv_def)
qed

lemma lba_inv_fired:
  "lba_inv P (call_on_lba_sync cb s) = lba_inv P s"
  by (simp add: call_on_lba_sync_def lba_inv_def typed_def gen_ok_iff consistent_iff
      split: option.splits)

lemma lba_inv_delete_obj: "lba_inv P s \<Longrightarrow> lba_inv P (delete_obj a s)"
  by (auto simp: lba_inv_def intro: typed_delete_obj)
     (simp_all add: delete_obj_def gen_ok_iff consistent_iff)

lemma syncer_finish_inv:
  "holding_read P s \<Longrightarrow> syncer_finish a s = Inr (r, s') \<Longrightarrow> lba_inv P s'"
  by (auto simp: syncer_finish_Inr lba_inv_fired
      intro!: lba_inv_delete_obj dest: unlock_op_holding_read)

lemma gc_do_cleanup_inv:
  "holding_read P s \<Longrightarrow> gc_do_cleanup a s = Inr s' \<Longrightarrow> lba_inv P s'"
  by (auto simp: gc_do_cleanup_Inr intro!: lba_inv_delete_obj dest: unlock_op_holding_read)

lemma ds_sync_inv:
  assumes "holding_read P s" "ds_sync (Some a) s = Inr (fin, s')" "a < next_obj s"
  shows "if fin then holding_read P s' else lba_inv P s'"
proof -
  from assms(2) obtain d where d: "disk_structure s = Some d"
    and s': "s' = (if fin
              then s\<lparr>io := tl (io s), disk_structure := Some (d\<lparr>durable := length (entries d)\<rparr>)\<rparr>
              else s\<lparr>io := tl (io s),
                     flushing := flushing s @ [(Some a, gen d, length (entries d))]\<rparr>)"
    by (auto simp: ds_sync_Inr)
  show ?thesis
  proof (cases fin)
    case True
    with assms(1,3) d show ?thesis
      by (auto simp: s' holding_read_def typed_def gen_ok_iff consistent_iff)
  next
    case False
    with assms(1,3) d show ?thesis
      by (auto simp: s' holding_read_def lba_inv_def typed_def gen_ok_iff consistent_iff)
  qed
qed

lemma syncer_do_write_inv:
  "holding_read P s \<Longrightarrow> a < next_obj s \<Longrightarrow> syncer_do_write a s = Inr (r, s') \<Longrightarrow>
   lba_inv P s'"
proof -
  assume h: "holding_read P s" and w: "syncer_do_write a s = Inr (r, s')" and a: "a < next_obj s"
  from w obtain fin s1 where s1: "ds_sync (Some a) s = Inr (fin, s1)"
    and s': "if fin then syncer_finish a s1 = Inr (r, s') else \<not> r \<and> s' = s1"
    unfolding syncer_do_write_Inr by blast
  show ?thesis
  proof (cases fin)
    case True
    with ds_sync_inv[OF h s1 a] s' show ?thesis by (simp add: syncer_finish_inv)
  next
    case False
    with ds_sync_inv[OF h s1 a] s' show ?thesis by simp
  qed
qed

lemma gc_replace_and_copy_inv:
  assumes "holding_write s" "gc_replace_and_copy s = Inr s'"
  shows "holding_write s' \<and> gen_ok P s'"
proof -
  from assms(1) obtain d idx where d: "state s = state_ready" "disk_structure s = Some d"
    "in_memory_index s = Some idx"
    by (auto simp: holding_write_def consistent_iff)
  from assms(2) gc_replace_and_copy_ready[OF d(1,3,2)] have s': "s' =
     s\<lparr>destroyed := destroyed s @ [d],
       disk_structure := Some \<lparr>gen = next_gen s,
         entries = map (\<lambda>j. (j, index_get_block_offset idx j)) [0..<index_max_block_id idx],
         durable = 0\<rparr>,
       next_gen := Suc (next_gen s)\<rparr>"
    by simp
  have "consistent s'"
    using d by (simp add: s' consistent_iff index_max_block_id_def index_from_log_copy)
  moreover have "write_held (disk_structure_lock s')" "flushing s' = []" "typed s'"
    using assms(1) by (simp_all add: s' holding_write_def typed_def)
  moreover have "gen_ok P s'"
    using assms(1) by (simp add: s' holding_write_def gen_ok_iff)
  ultimately show ?thesis by (simp add: holding_write_def)
qed

lemma gc_downgrade_inv:
  assumes "holding_write s" "gen_ok P s" "gc_downgrade s = Inr s'"
  shows "holding_read P s'"
proof -
  from assms(1) have w: "write_held (disk_structure_lock s)" "flushing s = []"
    by (simp_all add: holding_write_def)
  then have wr: "writer (disk_structure_lock s)" by (simp add: write_held_def)
  from assms(3) obtain s1 where s1: "unlock_op s = Inr s1" "lock_op rwi_read None s1 = (True, s')"
    by (auto simp: gc_downgrade_Inr)
  from s1(1) wr have s1_eq: "s1 = s\<lparr>disk_structure_lock :=
       process_queue ((disk_structure_lock s)\<lparr>writer := False\<rparr>)\<rparr>"
    by (simp add: unlock_op_Inr)
  have l1: "lock_ok 0 (disk_structure_lock s1)"
    using write_held_release[OF w(1)] by (simp add: s1_eq)
  have t1: "typed s1" using assms(1) s1(1) by (auto simp: holding_write_def intro: typed_unlock_op)
  from s1(2) have nw: "\<not> writer (disk_structure_lock s1)"
    and s'_eq: "s' = s1\<lparr>disk_structure_lock := take_lock rwi_read (disk_structure_lock s1)\<rparr>"
    by (auto simp: lock_op_eq split: if_splits)
  have "lock_ok (Suc (length (flushing s'))) (disk_structure_lock s')"
    using lock_ok_take_read[OF l1 nw] w(2) by (simp add: s'_eq s1_eq)
  moreover have "typed s'" using t1 by (simp add: s'_eq typed_def)
  moreover have "gen_ok P s'" "consistent s'"
    using assms(1,2) by (simp_all add: s'_eq s1_eq holding_write_def gen_ok_iff consistent_iff)
  ultimately show ?thesis by (simp add: holding_read_def)
qed

lemma gc_do_replace_inv:
  assumes "holding_write s" "gc_do_replace_disk_structure a s = Inr s'" "a < next_obj s"
  shows "lba_inv P s'"
proof -
  from assms(2) obtain s1 s2 fin s3 where
    s1: "gc_replace_and_copy s = Inr s1" and s2: "gc_downgrade s1 = Inr s2"
    and s3: "ds_sync (Some a) s2 = Inr (fin, s3)"
    and s': "if fin then gc_do_cleanup a s3 = Inr s' else s' = s3"
    by (auto simp: gc_do_replace_Inr)
  from gc_replace_and_copy_inv[OF assms(1) s1] have "holding_write s1" "gen_ok P s1" by simp_all
  from gc_downgrade_inv[OF this s2] have h2: "holding_read P s2" .
  have "next_obj s2 = next_obj s"
    using s1 s2 assms(1)
    by (auto simp: gc_downgrade_Inr unlock_op_Inr lock_op_eq gc_replace_and_copy_def
        and_then_eq_Inr ds_destroy_def ds_create_def holding_write_def consistent_iff
        gc_copy_loop_ready split: if_splits option.splits)
  with assms(3) have "a < next_obj s2" by simp
  from ds_sync_inv[OF h2 s3 this] s' show ?thesis
    by (cases fin) (simp_all add: gc_do_cleanup_inv)
qed

lemma typed_new_obj: "typed s \<Longrightarrow> typed (snd (new_obj x s))"
  by (auto simp: typed_def new_obj_def intro: ref_ok_new)

lemma gen_ok_new_obj:
  assumes "gen_ok P s" "\<And>a. a < next_obj s \<Longrightarrow> Q a \<Longrightarrow> P a"
  shows "gen_ok Q (snd (new_obj x s))"
proof -
  from assms(1) obtain d where d: "disk_structure s = Some d" "durable d \<le> length (entries d)"
    and f: "\<And>f. f \<in> set (flushing s) \<Longrightarrow> \<exists>a. fst f = Some a \<and> a < next_obj s \<and>
            fst (snd f) = gen d \<and> snd (snd f) \<le> length (entries d) \<and>
            (P a \<longrightarrow> snd (snd f) = length (entries d))"
    unfolding gen_ok_iff by blast
  have "\<exists>a. fst f = Some a \<and> a < Suc (next_obj s) \<and>
            fst (snd f) = gen d \<and> snd (snd f) \<le> length (entries d) \<and>
            (Q a \<longrightarrow> snd (snd f) = length (entries d))" if "f \<in> set (flushing s)" for f
    using f[OF that] assms(2) by (auto simp: less_Suc_eq)
  with d show ?thesis
    by (simp add: gen_ok_iff new_obj_def)
qed

lemma lba_inv_new_obj_track:
  assumes "lba_inv P s" "\<And>a. a < next_obj s \<Longrightarrow> Q a \<Longrightarrow> P a"
  shows "lba_inv Q (snd (new_obj x s))"
proof -
  have "gen_ok Q (snd (new_obj x s))"
    using assms by (auto simp: lba_inv_def intro: gen_ok_new_obj)
  moreover have "consistent (snd (new_obj x s))" "typed (snd (new_obj x s))"
    "lock_ok (length (flushing (snd (new_obj x s)))) (disk_structure_lock (snd (new_obj x s)))"
    using assms(1) by (simp_all add: lba_inv_def typed_new_obj) (simp_all add: new_obj_def consistent_iff)
  ultimately show ?thesis by (simp add: lba_inv_def)
qed

lemma lba_inv_new_obj: "lba_inv P s \<Longrightarrow> lba_inv P (snd (new_obj x s))"
  by (rule lba_inv_new_obj_track)

lemma new_obj_fields:
  "heap (snd (new_obj x s)) (next_obj s) = Some x"
  "next_obj (snd (new_obj x s)) = Suc (next_obj s)"
  "disk_structure_lock (snd (new_obj x s)) = disk_structure_lock s"
  "flushing (snd (new_obj x s)) = flushing s"
  by (simp_all add: new_obj_def)

text \<open>A refused request is queued with a reference of the right kind.\<close>

lemma lba_inv_enqueue:
  assumes "lba_inv P s" "a < next_obj s"
    "(m = rwi_read \<and> (\<exists>c. heap s a = Some (Syncer c))) \<or> (m = rwi_write \<and> heap s a = Some Gc)"
  shows "lba_inv P (s\<lparr>disk_structure_lock :=
           (disk_structure_lock s)\<lparr>queue := queue (disk_structure_lock s) @ [(m, Some a)]\<rparr>\<rparr>)"
proof -
  have "ref_ok (heap s) (next_obj s) (m, Some a)"
    using assms(2,3) by (auto simp: ref_ok_def)
  with assms(1) show ?thesis
    by (auto simp: lba_inv_def typed_def gen_ok_iff consistent_iff)
qed

lemma gc_inv:
  assumes "lba_inv P s" "gc s = Inr s'"
  shows "lba_inv P s'"
proof -
  let ?a = "next_obj s"
  let ?s1 = "snd (new_obj Gc s)"
  have i1: "lba_inv P ?s1" using assms(1) by (rule lba_inv_new_obj)
  from assms(2) obtain ok s2 where l: "lock_op rwi_write (Some ?a) ?s1 = (ok, s2)"
    and s': "if ok then gc_do_replace_disk_structure ?a s2 = Inr s' else s' = s2"
    unfolding gc_Inr by blast
  show ?thesis
  proof (cases ok)
    case False
    with l have "s2 = ?s1\<lparr>disk_structure_lock :=
           (disk_structure_lock ?s1)\<lparr>queue := queue (disk_structure_lock ?s1) @ [(rwi_write, Some ?a)]\<rparr>\<rparr>"
      by (simp add: lock_op_eq split: if_splits)
    moreover have "lba_inv P \<dots>"
      by (rule lba_inv_enqueue[OF i1]) (simp_all add: new_obj_fields)
    ultimately show ?thesis using s' False by simp
  next
    case True
    with l have t: "try_lock rwi_write (disk_structure_lock ?s1)"
      and s2: "s2 = ?s1\<lparr>disk_structure_lock := take_lock rwi_write (disk_structure_lock ?s1)\<rparr>"
      by (simp_all add: lock_op_eq split: if_splits)
    from i1 have lk: "lock_ok (length (flushing ?s1)) (disk_structure_lock ?s1)"
      by (simp add: lba_inv_def)
    from lock_ok_take_write[OF lk t] have "flushing ?s1 = []"
      "write_held (take_lock rwi_write (disk_structure_lock ?s1))" by simp_all
    moreover have "typed s2" using i1 by (simp add: s2 lba_inv_def typed_def)
    moreover have "consistent s2" using i1 by (simp add: s2 lba_inv_def consistent_iff)
    ultimately have "holding_write s2" by (simp add: holding_write_def s2)
    moreover have "?a < next_obj s2" by (simp add: s2 new_obj_def)
    ultimately show ?thesis using s' True by (simp add: gc_do_replace_inv)
  qed
qed

lemma lba_inv_set_syncer:
  assumes "lba_inv P s" "heap s a = Some (Syncer c)"
  shows "lba_inv P (s\<lparr>heap := (heap s)(a := Some (Syncer c'))\<rparr>)"
  using assms
  by (auto simp: lba_inv_def typed_def gen_ok_iff consistent_iff intro: ref_ok_syncer)

lemma syncer_do_acquire_lock_inv:
  assumes "lba_inv P s" "heap s a = Some (Syncer c)" "a < next_obj s"
    "syncer_do_acquire_lock a s = Inr (r, s')"
  shows "lba_inv P s'"
proof -
  from assms(4) obtain ok s1 where l: "lock_op rwi_read (Some a) s = (ok, s1)"
    and s': "if ok then syncer_do_write a s1 = Inr (r, s') else \<not> r \<and> s' = s1"
    unfolding syncer_do_acquire_lock_Inr by blast
  show ?thesis
  proof (cases ok)
    case False
    with l have "s1 = s\<lparr>disk_structure_lock :=
           (disk_structure_lock s)\<lparr>queue := queue (disk_structure_lock s) @ [(rwi_read, Some a)]\<rparr>\<rparr>"
      by (simp add: lock_op_eq split: if_splits)
    moreover have "lba_inv P \<dots>"
      using assms(2) by (intro lba_inv_enqueue[OF assms(1,3)]) simp
    ultimately show ?thesis using s' False by simp
  next
    case True
    with l have nw: "\<not> writer (disk_structure_lock s)"
      and s1: "s1 = s\<lparr>disk_structure_lock := take_lock rwi_read (disk_structure_lock s)\<rparr>"
      by (simp_all add: lock_op_eq split: if_splits)
    from assms(1) have lk: "lock_ok (length (flushing s)) (disk_structure_lock s)"
      by (simp add: lba_inv_def)
    have "lock_ok (Suc (length (flushing s1))) (disk_structure_lock s1)"
      using lock_ok_take_read[OF lk nw] by (simp add: s1)
    moreover have "typed s1" using assms(1) by (simp add: s1 lba_inv_def typed_def)
    moreover have "gen_ok P s1" "consistent s1"
      using assms(1) by (simp_all add: s1 lba_inv_def gen_ok_iff consistent_iff)
    ultimately have "holding_read P s1" by (simp add: holding_read_def)
    moreover have "a < next_obj s1" using assms(3) by (simp add: s1)
    ultimately show ?thesis using s' True by (simp add: syncer_do_write_inv)
  qed
qed

lemma syncer_do_write_pending_heap:
  "syncer_do_write a s = Inr (False, s') \<Longrightarrow> heap s' = heap s \<and> next_obj s' = next_obj s"
  by (auto simp: syncer_do_write_Inr ds_sync_Inr syncer_finish_Inr split: if_splits)

lemma syncer_do_acquire_lock_pending_heap:
  "syncer_do_acquire_lock a s = Inr (False, s') \<Longrightarrow>
   heap s' = heap s \<and> next_obj s' = next_obj s"
  by (auto simp: syncer_do_acquire_lock_Inr lock_op_eq split: if_splits
      dest!: syncer_do_write_pending_heap)

lemma syncer_run_inv:
  assumes "lba_inv P s" "heap s a = Some (Syncer c)" "a < next_obj s"
    "syncer_run a cb s = Inr (r, s')"
  shows "lba_inv P s'"
proof -
  let ?s0 = "s\<lparr>heap := (heap s)(a := Some (Syncer None))\<rparr>"
  from assms(4) obtain s1 where
    s1: "syncer_do_acquire_lock a ?s0 = Inr (r, s1)"
    and s': "if r then s' = s1 else s' = s1\<lparr>heap := (heap s1)(a := Some (Syncer cb))\<rparr>"
    unfolding syncer_run_Inr by blast
  have i0: "lba_inv P ?s0" using assms(1,2) by (rule lba_inv_set_syncer)
  have i1: "lba_inv P s1"
    using i0 _ _ s1 by (rule syncer_do_acquire_lock_inv) (simp_all add: assms(3))
  show ?thesis
  proof (cases r)
    case True
    with s' i1 show ?thesis by simp
  next
    case False
    with s1 have "heap s1 a = Some (Syncer None)"
      by (auto dest: syncer_do_acquire_lock_pending_heap)
    from lba_inv_set_syncer[OF i1 this] s' False show ?thesis by simp
  qed
qed

lemma sync_inv:
  assumes "lba_inv P s" "sync r cb s = Inr (fin, s')"
  shows "lba_inv P s'"
proof -
  from assms(2) obtain s1 where
    s1: "(if r mod 5 = 1 then gc s else Inr s) = Inr s1"
    and run: "syncer_run (next_obj s1) cb (snd (new_obj (Syncer None) s1)) = Inr (fin, s')"
    unfolding sync_Inr by blast
  have "lba_inv P s1" using s1 assms(1) by (auto split: if_splits intro: gc_inv)
  then have "lba_inv P (snd (new_obj (Syncer None) s1))" by (rule lba_inv_new_obj)
  from this _ _ run show ?thesis
    by (rule syncer_run_inv) (simp_all add: new_obj_def)
qed

lemma typed_pop:
  "typed s \<Longrightarrow> granted (disk_structure_lock s) = r # g \<Longrightarrow>
   typed (s\<lparr>disk_structure_lock := (disk_structure_lock s)\<lparr>granted := g\<rparr>\<rparr>) \<and>
   ref_ok (heap s) (next_obj s) r"
  by (simp add: typed_def)

lemma deliver_lock_available_inv:
  assumes "lba_inv P s" "deliver_lock_available s = Inr s'"
  shows "lba_inv P s'"
proof -
  let ?l = "disk_structure_lock s"
  from assms(2) obtain m a g where g: "granted ?l = (m, Some a) # g"
    and d: "(\<exists>c r. heap s a = Some (Syncer c) \<and>
               syncer_do_write a (s\<lparr>disk_structure_lock := ?l\<lparr>granted := g\<rparr>\<rparr>) = Inr (r, s')) \<or>
            (heap s a = Some Gc \<and>
               gc_do_replace_disk_structure a (s\<lparr>disk_structure_lock := ?l\<lparr>granted := g\<rparr>\<rparr>) = Inr s')"
    unfolding deliver_lock_available_Inr Let_def by blast
  let ?s1 = "s\<lparr>disk_structure_lock := ?l\<lparr>granted := g\<rparr>\<rparr>"
  from assms(1) have t: "typed s" and lk: "lock_ok (length (flushing s)) ?l"
    and go: "gen_ok P s" and co: "consistent s"
    by (simp_all add: lba_inv_def)
  from typed_pop[OF t g] have t1: "typed ?s1" and r: "ref_ok (heap s) (next_obj s) (m, Some a)"
    by simp_all
  from r have a: "a < next_obj s" by (simp add: ref_ok_def)
  have go1: "gen_ok P ?s1" using go by (simp add: gen_ok_iff)
  have co1: "consistent ?s1" using co by (simp add: consistent_iff)
  from d show ?thesis
  proof (elim disjE exE conjE)
    fix c r' assume h: "heap s a = Some (Syncer c)" and w: "syncer_do_write a ?s1 = Inr (r', s')"
    from r h have "m = rwi_read" by (simp add: ref_ok_def)
    with lock_ok_pop_read[OF lk] g have "lock_ok (Suc (length (flushing s))) (?l\<lparr>granted := g\<rparr>)"
      by simp
    with t1 go1 co1 have "holding_read P ?s1" by (simp add: holding_read_def)
    from this _ w show ?thesis by (rule syncer_do_write_inv) (simp add: a)
  next
    assume h: "heap s a = Some Gc" and w: "gc_do_replace_disk_structure a ?s1 = Inr s'"
    from r h have "m = rwi_write" by (simp add: ref_ok_def)
    with lock_ok_pop_write[OF lk] g have "flushing s = []" "write_held (?l\<lparr>granted := g\<rparr>)"
      by simp_all
    with t1 co1 have "holding_write ?s1" by (simp add: holding_write_def)
    from this w show ?thesis by (rule gc_do_replace_inv) (simp add: a)
  qed
qed

lemma flush_completed_holding:
  assumes "lba_inv P s" "k < length (flushing s)" "flushing s ! k = (cb, g, n)"
  shows "holding_read P (flush_completed g n
           (s\<lparr>flushing := take k (flushing s) @ drop (Suc k) (flushing s)\<rparr>))"
proof -
  let ?F = "take k (flushing s) @ drop (Suc k) (flushing s)"
  from assms(1) obtain d where d: "disk_structure s = Some d" "durable d \<le> length (entries d)"
    and f: "\<And>f. f \<in> set (flushing s) \<Longrightarrow> \<exists>a. fst f = Some a \<and> a < next_obj s \<and>
            fst (snd f) = gen d \<and> snd (snd f) \<le> length (entries d) \<and>
            (P a \<longrightarrow> snd (snd f) = length (entries d))"
    unfolding lba_inv_def gen_ok_iff by blast
  have mem: "(cb, g, n) \<in> set (flushing s)" using assms(2,3) by (metis nth_mem)
  from f[OF mem] have g: "g = gen d" "n \<le> length (entries d)" by auto
  have sub: "set ?F \<subseteq> set (flushing s)"
    by (auto dest: in_set_takeD in_set_dropD)
  have len: "Suc (length ?F) = length (flushing s)" using assms(2) by simp
  have fc: "flush_completed g n (s\<lparr>flushing := ?F\<rparr>) =
            s\<lparr>flushing := ?F, disk_structure := Some (d\<lparr>durable := max (durable d) n\<rparr>)\<rparr>"
    using d g by (simp add: flush_completed_def)
  have "gen_ok P (s\<lparr>flushing := ?F, disk_structure := Some (d\<lparr>durable := max (durable d) n\<rparr>)\<rparr>)"
    using d g f sub by (auto simp: gen_ok_iff)
  moreover have "consistent (s\<lparr>flushing := ?F, disk_structure := Some (d\<lparr>durable := max (durable d) n\<rparr>)\<rparr>)"
    using assms(1) d by (simp add: lba_inv_def consistent_iff)
  moreover have "typed (s\<lparr>flushing := ?F, disk_structure := Some (d\<lparr>durable := max (durable d) n\<rparr>)\<rparr>)"
    using assms(1) by (simp add: lba_inv_def typed_def)
  moreover have "lock_ok (Suc (length ?F)) (disk_structure_lock s)"
    using assms(1) unfolding len by (simp add: lba_inv_def)
  ultimately show ?thesis
    unfolding fc holding_read_def by simp
qed

lemma deliver_sync_done_inv:
  assumes "lba_inv P s" "deliver_sync_done k s = Inr s'"
  shows "lba_inv P s'"
proof -
  from assms(2) obtain a g n where k: "k < length (flushing s)"
    and f: "flushing s ! k = (Some a, g, n)"
    and d: "(\<exists>c r. syncer_finish a (flush_completed g n
                 (s\<lparr>flushing := take k (flushing s) @ drop (Suc k) (flushing s)\<rparr>)) = Inr (r, s')) \<or>
            gc_do_cleanup a (flush_completed g n
                 (s\<lparr>flushing := take k (flushing s) @ drop (Suc k) (flushing s)\<rparr>)) = Inr s'"
    unfolding deliver_sync_done_Inr Let_def by blast
  from flush_completed_holding[OF assms(1) k f] d show ?thesis
    by (auto intro: syncer_finish_inv gc_do_cleanup_inv)
qed



lemma protocol_step_inv:
  "lba_inv P s \<Longrightarrow> protocol_event e \<Longrightarrow> step e s = Inr s' \<Longrightarrow> lba_inv P s'"
  by (cases e)
     (auto simp: and_then_eq_Inr
       intro: sync_inv deliver_lock_available_inv deliver_sync_done_inv)

lemma protocol_run_inv:
  "lba_inv P s \<Longrightarrow> \<forall>e\<in>set es. protocol_event e \<Longrightarrow> run es s = Inr s' \<Longrightarrow> lba_inv P s'"
proof (induction es arbitrary: s)
  case Nil
  then show ?case by simp
next
  case (Cons e es)
  from Cons.prems(3) obtain s1 where s1: "step e s = Inr s1" "run es s1 = Inr s'"
    by (auto simp: and_then_eq_Inr)
  from Cons.prems(1,2) s1(1) have "lba_inv P s1" by (auto intro: protocol_step_inv)
  with Cons.IH s1(2) Cons.prems(2) show ?case by simp
qed

lemma started_inv: "lba_inv P (started fd em script)"
  by (simp add: lba_inv_def lock_ok_def typed_def gen_ok_iff consistent_iff started_simps
      index_from_log_def)

lemma undisturbed_refl [simp]: "undisturbed c a0 s s"
  by (simp add: undisturbed_def)







lemma take_lock_lists [simp]:
  "queue (take_lock m l) = queue l" "granted (take_lock m l) = granted l"
  by (cases m; simp)+






















subsection \<open>The carrier's own steps\<close>



subsection \<open>Deliveries: the carrier's or another object's\<close>




subsection \<open>One callback through a run\<close>

lemma owes_frame:
  "heap s' = heap s \<Longrightarrow> next_obj s' = next_obj s \<Longrightarrow> sync_fired s' = sync_fired s \<Longrightarrow>
   owes c a0 n m s' = owes c a0 n m s"
  by (simp add: owes_def)




subsection \<open>What a call of sync leaves behind\<close>







subsection \<open>The step that invokes the callback\<close>


subsection \<open>Recovery from the anchor\<close>





lemma run_append_Inr:
  "run (es @ [e]) s = Inr s' \<longleftrightarrow> (\<exists>s1. run es s = Inr s1 \<and> step e s1 = Inr s')"
  by (induction es arbitrary: s) (auto simp: and_then_eq_Inr)


subsection \<open>A call of sync, from its return to its completion\<close>





subsection \<open>Transitions that keep the log\<close>

lemma keeps_refl [simp]: "keeps a0 s s"
  by (simp add: keeps_def)








lemma delete_obj_keeps: "keeps a0 s (delete_obj a s)"
  by (simp add: delete_obj_def keeps_def)








subsection \<open>Tracking a table through the calls and deliveries\<close>














subsection \<open>A ready directory stays ready until it is shut down\<close>



subsection \<open>The table at the call of sync, up to the completion\<close>




subsection \<open>The anchor at the completion\<close>



subsection \<open>From the construction to a ready directory\<close>











subsection \<open>The call of sync itself\<close>




section \<open>The claims\<close>

text \<open>
  C3.  For every block id and offset, \<open>set_block_offset\<close> and \<open>delete_block\<close>, called on
  a ready directory, first update the in-memory index and then append the entry (for a
  delete, the entry with \<open>DELETE_BLOCK\<close>) to the disk structure that is current at the
  call.  The call returns at once: the result differs from the state before only in the
  index and in the appended entry (no flush is requested, nothing becomes durable, the
  lock is untouched), and a \<open>get_block_offset\<close> that follows sees the new value.
\<close>

theorem set_and_delete_update_then_append:
  assumes "state s = state_ready" "in_memory_index s = Some idx" "disk_structure s = Some d"
  shows "set_block_offset b off s =
           add_entry b off (s\<lparr>in_memory_index := Some (index_set_block_offset idx b off)\<rparr>) \<and>
         set_block_offset b off s =
           Inr (s\<lparr>in_memory_index := Some (index_set_block_offset idx b off),
                  disk_structure := Some (d\<lparr>entries := entries d @ [(b, off)]\<rparr>)\<rparr>) \<and>
         and_then (set_block_offset b off s) (get_block_offset b) = Inr off \<and>
         delete_block b s =
           add_entry b DELETE_BLOCK (s\<lparr>in_memory_index := Some (index_delete_block idx b)\<rparr>) \<and>
         delete_block b s =
           Inr (s\<lparr>in_memory_index := Some (index_delete_block idx b),
                  disk_structure := Some (d\<lparr>entries := entries d @ [(b, DELETE_BLOCK)]\<rparr>)\<rparr>) \<and>
         and_then (delete_block b s) (get_block_offset b) = Inr DELETE_BLOCK"
  using assms
  by (simp add: set_block_offset_def delete_block_def add_entry_def ds_add_entry_def
      get_block_offset_def index_delete_block_def)

theorem set_and_delete_update_then_append_witness:
  "set_block_offset 2 100 (started 3 0 []) =
     Inr ((started 3 0 [])\<lparr>in_memory_index := Some [- 1, - 1, 100],
            disk_structure := Some \<lparr>gen = 0, entries = [(2, 100)], durable = 0\<rparr>\<rparr>) \<and>
   and_then (delete_block 2 (started 3 0 [])) (get_block_offset 2) = Inr (- 1)"
proof -
  have ready: "state (started 3 0 []) = state_ready"
    "in_memory_index (started 3 0 []) = Some []"
    "disk_structure (started 3 0 []) = Some \<lparr>gen = 0, entries = [], durable = 0\<rparr>"
    by (simp_all add: started_def ds_create_def lba_list_t_new_def index_new_def)
  note h = set_and_delete_update_then_append [OF ready, of 2 100]
  have idx: "index_set_block_offset [] 2 100 = [- 1, - 1, 100]"
    by (simp add: index_set_block_offset_def DELETE_BLOCK_def eval_nat_numeral)
  have "set_block_offset 2 100 (started 3 0 []) =
     Inr ((started 3 0 [])\<lparr>in_memory_index := Some (index_set_block_offset [] 2 100),
            disk_structure := Some (\<lparr>gen = 0, entries = [], durable = 0\<rparr>
                                     \<lparr>entries := entries \<lparr>gen = 0, entries = [], durable = 0\<rparr> @ [(2, 100)]\<rparr>)\<rparr>)"
    by (rule conjunct1 [OF conjunct2 [OF h]])
  moreover have "and_then (delete_block 2 (started 3 0 [])) (get_block_offset 2) = Inr DELETE_BLOCK"
    using h by blast
  ultimately show ?thesis
    by (simp add: idx DELETE_BLOCK_def)
qed

text \<open>
  C8 (as the code has it).  The destructor asserts that the state is \<open>state_unstarted\<close> or
  \<open>state_shut_down\<close> and that neither an index nor a disk structure is installed: in
  every other lifecycle state it is an assertion failure, and it passes exactly in those
  two states with both pointers null.  A directory that was never started can therefore
  be destroyed.
\<close>

theorem delete_needs_unstarted_or_shut_down:
  "(state s \<noteq> state_unstarted \<and> state s \<noteq> state_shut_down
      \<longrightarrow> lba_list_t_delete s = Inl assertion_failed) \<and>
   (lba_list_t_delete s = Inr () \<longleftrightarrow>
      (state s = state_unstarted \<or> state s = state_shut_down) \<and>
      in_memory_index s = None \<and> disk_structure s = None)"
  by (simp add: lba_list_t_delete_def)

theorem delete_needs_unstarted_or_shut_down_witness:
  "state (started 3 0 []) \<noteq> state_unstarted \<and> state (started 3 0 []) \<noteq> state_shut_down \<and>
   lba_list_t_delete (started 3 0 []) = Inl assertion_failed"
  using delete_needs_unstarted_or_shut_down [of "started 3 0 []"]
  by (simp add: started_def ds_create_def)

text \<open>C8 as the spec words it fails: a directory in \<open>state_unstarted\<close>, which is not
  \<open>state_shut_down\<close>, passes the destructor's assertions.\<close>

theorem delete_unstarted_counterexample:
  "state (lba_list_t_new 0) \<noteq> state_shut_down \<and> lba_list_t_delete (lba_list_t_new 0) = Inr ()"
  by (simp add: lba_list_t_delete_def lba_list_t_new_def)

text \<open>
  C2.  A \<open>set_block_offset\<close> or \<open>delete_block\<close> call that returned before a garbage
  collection's replace step is reflected in the new generation: whatever happens in
  between, short of another set or delete of the same block or of a lifecycle event, when
  the collector runs \<open>do_replace_disk_structure\<close> (at once from \<open>gc\<close>, or on the delivery
  of its write grant), the new structure, a generation created by that step, holds exactly
  one entry for the block, the updated offset (or \<open>DELETE_BLOCK\<close>), and replaying it gives
  that value.  The call's own append may have gone to the generation that is destroyed.
\<close>

theorem update_before_replace_is_copied:
  assumes "set_block_offset b off s = Inr s1 \<or> (delete_block b s = Inr s1 \<and> off = DELETE_BLOCK)"
    and "\<forall>e\<in>set es. \<not> overwrites b e" and "run es s1 = Inr s2"
    and "(try_lock rwi_write (disk_structure_lock s2) \<and> gc s2 = Inr s3) \<or>
         ((\<exists>a g. granted (disk_structure_lock s2) = (rwi_write, Some a) # g \<and>
                 heap s2 a = Some Gc) \<and>
          step Lock_available s2 = Inr s3)"
  shows "\<exists>d. disk_structure s3 = Some d \<and> gen d = next_gen s2 \<and>
              filter (\<lambda>e. fst e = b) (entries d) = [(b, off)] \<and>
              index_get_block_offset (index_from_log (entries d)) b = off \<and>
              get_block_offset b s3 = Inr off"
proof -
  have "holds_offset b off s1"
    using assms(1)
    by (auto simp: set_block_offset_Inr delete_block_Inr holds_offset_def index_set_nth_same)
  with assms(2,3) have h: "holds_offset b off s2" by (blast intro: holds_offset_run)
  from assms(4) obtain a t where t: "gc_do_replace_disk_structure a t = Inr s3"
    "state t = state s2" "in_memory_index t = in_memory_index s2" "next_gen t = next_gen s2"
  proof (elim disjE conjE exE)
    assume "try_lock rwi_write (disk_structure_lock s2)" "gc s2 = Inr s3"
    then show ?thesis
      by (intro that[of "next_obj s2" "s2\<lparr>heap := (heap s2)(next_obj s2 := Some Gc),
               next_obj := Suc (next_obj s2),
               disk_structure_lock := take_lock rwi_write (disk_structure_lock s2)\<rparr>"])
         (simp_all add: gc_immediate)
  next
    fix a g
    assume "granted (disk_structure_lock s2) = (rwi_write, Some a) # g" "heap s2 a = Some Gc"
      "step Lock_available s2 = Inr s3"
    then show ?thesis
      by (intro that[of a "s2\<lparr>disk_structure_lock := (disk_structure_lock s2)\<lparr>granted := g\<rparr>\<rparr>"])
         (simp_all add: lock_available_gc)
  qed
  from h t(2,3) have "holds_offset b off t" by (simp add: holds_offset_def)
  from replace_copies_held_offset[OF this t(1)] t(4) show ?thesis by simp
qed

theorem update_before_replace_is_copied_witness:
  "\<exists>s s1 s2 s3 d.
     run [Call_sync 0 (Some 1), Call_sync 1 (Some 2)] (started 3 0 [False, False]) = Inr s \<and>
     queue (disk_structure_lock s) = [(rwi_write, Some 1)] \<and>
     set_block_offset 0 7 s = Inr s1 \<and>
     run [Sync_done 0, Sync_done 0] s1 = Inr s2 \<and>
     step Lock_available s2 = Inr s3 \<and>
     disk_structure s3 = Some d \<and> gen d = 1 \<and>
     filter (\<lambda>e. fst e = 0) (entries d) = [(0, 7)]"
proof -
  let ?S = "started 3 0 [False, False]"
  let ?pre = "[Call_sync 0 (Some 1), Call_sync 1 (Some 2)]"
  have "case run ?pre ?S of Inl e \<Rightarrow> False | Inr s \<Rightarrow>
          queue (disk_structure_lock s) = [(rwi_write, Some 1)] \<and>
          (case set_block_offset 0 7 s of Inl e \<Rightarrow> False | Inr s1 \<Rightarrow>
             (case run [Sync_done 0, Sync_done 0] s1 of Inl e \<Rightarrow> False | Inr s2 \<Rightarrow>
                granted (disk_structure_lock s2) = [(rwi_write, Some 1)] \<and>
                heap s2 1 = Some Gc \<and> next_gen s2 = 1 \<and>
                (case step Lock_available s2 of Inl e \<Rightarrow> False | Inr s3 \<Rightarrow> True)))"
    by code_simp
  then obtain s s1 s2 s3 where r:
    "run ?pre ?S = Inr s" "queue (disk_structure_lock s) = [(rwi_write, Some 1)]"
    "set_block_offset 0 7 s = Inr s1" "run [Sync_done 0, Sync_done 0] s1 = Inr s2"
    "granted (disk_structure_lock s2) = [(rwi_write, Some 1)]" "heap s2 1 = Some Gc"
    "next_gen s2 = 1" "step Lock_available s2 = Inr s3"
    by (auto dest!: Inr_caseE)
  have q: "\<forall>e\<in>set [Sync_done 0, Sync_done 0]. \<not> overwrites 0 e" by simp
  have g: "(try_lock rwi_write (disk_structure_lock s2) \<and> gc s2 = Inr s3) \<or>
         ((\<exists>a g. granted (disk_structure_lock s2) = (rwi_write, Some a) # g \<and>
                 heap s2 a = Some Gc) \<and>
          step Lock_available s2 = Inr s3)"
    using r(5,6,8) by blast
  from update_before_replace_is_copied [OF disjI1 [OF r(3)] q r(4) g] r show ?thesis
    by (metis (no_types, lifting))
qed

text \<open>
  C4.  When a garbage collection has the lock in write mode it runs
  \<open>do_replace_disk_structure\<close> (from the constructor if the lock was granted at once, from
  \<open>on_lock_available\<close> otherwise), which on a ready directory, in this order, tells the
  current structure to destroy itself (without waiting: nothing else changes), installs
  a new empty structure as current, and appends to it, for every block id from 0 up to
  \<open>max_block_id()\<close> (exclusive), the id's current entry of the index.
\<close>

theorem gc_replace_destroys_creates_copies:
  assumes "state s = state_ready" "in_memory_index s = Some idx" "disk_structure s = Some d"
  shows "gc_replace_and_copy s =
           Inr (s\<lparr>destroyed := destroyed s @ [d],
                  disk_structure := Some \<lparr>gen = next_gen s,
                    entries = map (\<lambda>j. (j, index_get_block_offset idx j))
                                [0..<index_max_block_id idx],
                    durable = 0\<rparr>,
                  next_gen := Suc (next_gen s)\<rparr>) \<and>
         (\<forall>a s'. gc_do_replace_disk_structure a s = Inr s' \<longrightarrow>
            destroyed s' = destroyed s @ [d] \<and>
            (\<exists>d'. disk_structure s' = Some d' \<and> gen d' = next_gen s \<and>
               entries d' = map (\<lambda>j. (j, index_get_block_offset idx j))
                              [0..<index_max_block_id idx])) \<and>
         (try_lock rwi_write (disk_structure_lock s) \<longrightarrow>
            gc s = gc_do_replace_disk_structure (next_obj s)
                     (s\<lparr>heap := (heap s)(next_obj s := Some Gc), next_obj := Suc (next_obj s),
                        disk_structure_lock := take_lock rwi_write (disk_structure_lock s)\<rparr>)) \<and>
         (\<forall>a g. granted (disk_structure_lock s) = (rwi_write, Some a) # g \<and> heap s a = Some Gc \<longrightarrow>
            step Lock_available s =
              gc_do_replace_disk_structure a
                (s\<lparr>disk_structure_lock := (disk_structure_lock s)\<lparr>granted := g\<rparr>\<rparr>))"
proof (intro conjI allI impI)
  show "gc_replace_and_copy s =
           Inr (s\<lparr>destroyed := destroyed s @ [d],
                  disk_structure := Some \<lparr>gen = next_gen s,
                    entries = map (\<lambda>j. (j, index_get_block_offset idx j))
                                [0..<index_max_block_id idx],
                    durable = 0\<rparr>,
                  next_gen := Suc (next_gen s)\<rparr>)"
    by (rule gc_replace_and_copy_ready[OF assms])
next
  fix a s' assume "gc_do_replace_disk_structure a s = Inr s'"
  from gc_do_replace_log[OF assms this]
  show "destroyed s' = destroyed s @ [d]"
    and "\<exists>d'. disk_structure s' = Some d' \<and> gen d' = next_gen s \<and>
               entries d' = map (\<lambda>j. (j, index_get_block_offset idx j))
                              [0..<index_max_block_id idx]"
    by blast+
next
  assume "try_lock rwi_write (disk_structure_lock s)"
  then show "gc s = gc_do_replace_disk_structure (next_obj s)
                     (s\<lparr>heap := (heap s)(next_obj s := Some Gc), next_obj := Suc (next_obj s),
                        disk_structure_lock := take_lock rwi_write (disk_structure_lock s)\<rparr>)"
    by (simp add: gc_def new_obj_def lock_op_def rwi_lock_def)
next
  fix a g
  assume "granted (disk_structure_lock s) = (rwi_write, Some a) # g \<and> heap s a = Some Gc"
  then show "step Lock_available s =
              gc_do_replace_disk_structure a
                (s\<lparr>disk_structure_lock := (disk_structure_lock s)\<lparr>granted := g\<rparr>\<rparr>)"
    by (simp add: deliver_lock_available_def gc_on_lock_available_def)
qed

theorem gc_replace_destroys_creates_copies_witness:
  "gc_replace_and_copy
     ((started 3 0 [])\<lparr>in_memory_index := Some [7, 9],
        disk_structure := Some \<lparr>gen = 0, entries = [(0, 5), (0, 7), (1, 9)], durable = 0\<rparr>\<rparr>) =
   Inr ((started 3 0 [])\<lparr>in_memory_index := Some [7, 9],
          destroyed := [\<lparr>gen = 0, entries = [(0, 5), (0, 7), (1, 9)], durable = 0\<rparr>],
          disk_structure := Some \<lparr>gen = 1, entries = [(0, 7), (1, 9)], durable = 0\<rparr>,
          next_gen := 2\<rparr>)"
proof -
  let ?s = "(started 3 0 [])\<lparr>in_memory_index := Some [7, 9],
        disk_structure := Some \<lparr>gen = 0, entries = [(0, 5), (0, 7), (1, 9)], durable = 0\<rparr>\<rparr>"
  have ready: "state ?s = state_ready" "in_memory_index ?s = Some [7, 9]"
    "disk_structure ?s = Some \<lparr>gen = 0, entries = [(0, 5), (0, 7), (1, 9)], durable = 0\<rparr>"
    by (simp_all add: started_simps)
  have copy: "map (\<lambda>j. (j, index_get_block_offset [7, 9] j)) [0..<index_max_block_id [7, 9]]
              = [(0, 7), (1, 9)]"
    by (simp add: index_max_block_id_def index_get_block_offset_def upt_rec)
  from gc_replace_destroys_creates_copies [OF ready]
  have "gc_replace_and_copy ?s =
           Inr (?s\<lparr>destroyed := destroyed ?s @ [\<lparr>gen = 0, entries = [(0, 5), (0, 7), (1, 9)], durable = 0\<rparr>],
                  disk_structure := Some \<lparr>gen = next_gen ?s,
                    entries = map (\<lambda>j. (j, index_get_block_offset [7, 9] j))
                                [0..<index_max_block_id [7, 9]],
                    durable = 0\<rparr>,
                  next_gen := Suc (next_gen ?s)\<rparr>)"
    by (rule conjunct1)
  then show ?thesis
    by (simp add: copy started_simps)
qed

text \<open>
  C6.  \<open>start(fd, last_metablock, cb)\<close> on an unstarted directory returns a result, and
  the ready-callback is not invoked during the call.  If it returns true, the finish step
  ran inside the call, from the state \<open>state_starting_up\<close>: the index is the replay of the
  loaded entries, the state is \<open>state_ready\<close>, and the ready-callback is never invoked,
  whatever happens later.  If it returns false, the state is \<open>state_starting_up\<close>, the
  callback is not invoked before the load completes, and the completion of the load runs
  the same finish step, which builds the same index, makes the directory ready and
  invokes the callback (if one was given) exactly once; it is never invoked again.
\<close>

theorem start_finishes_once:
  assumes "state s = state_unstarted" "loading s = []"
  shows "\<exists>fin s1. start fd mb cb s = Inr (fin, s1) \<and> ready_fired s1 = ready_fired s \<and>
     (fin \<longrightarrow>
        (\<exists>t. state t = state_starting_up \<and> starter_finish (next_obj s) t = Inr s1) \<and>
        state s1 = state_ready \<and> in_memory_index s1 = Some (index_from_log mb) \<and>
        (\<forall>es s2. run es s1 = Inr s2 \<longrightarrow> ready_fired s2 = ready_fired s)) \<and>
     (\<not> fin \<longrightarrow>
        state s1 = state_starting_up \<and>
        (\<forall>es s2. Load_done \<notin> set es \<longrightarrow> run es s1 = Inr s2 \<longrightarrow>
           state s2 = state_starting_up \<and> ready_fired s2 = ready_fired s) \<and>
        (\<exists>s2. step Load_done s1 = Inr s2 \<and>
           step Load_done s1 = starter_finish (next_obj s) (s1\<lparr>loading := []\<rparr>) \<and>
           state s2 = state_ready \<and> in_memory_index s2 = Some (index_from_log mb) \<and>
           ready_fired s2 = ready_fired s @ (case cb of None \<Rightarrow> [] | Some c \<Rightarrow> [c]) \<and>
           (\<forall>es s3. run es s2 = Inr s3 \<longrightarrow> ready_fired s3 = ready_fired s2)))"
proof (cases "io s \<noteq> [] \<and> hd (io s)")
  case True
  let ?t = "start_loading fd mb s"
  let ?s1 = "delete_obj (next_obj s) (?t\<lparr>in_memory_index := Some (index_from_log mb),
               state := state_ready\<rparr>)"
  have fin: "starter_finish (next_obj s) ?t = Inr ?s1"
    by (simp add: starter_finish_def start_loading_def call_on_lba_ready_def)
  have st: "start fd mb cb s = Inr (True, ?s1)"
    using True by (simp add: start_unstarted[OF assms(1)] fin)
  have props: "state ?s1 = state_ready" "loading ?s1 = []" "ready_fired ?s1 = ready_fired s"
    "in_memory_index ?s1 = Some (index_from_log mb)" "state ?t = state_starting_up"
    using assms(2) by (simp_all add: delete_obj_def start_loading_def)
  have "\<forall>es s2. run es ?s1 = Inr s2 \<longrightarrow> ready_fired s2 = ready_fired s"
    using settled_run[of _ ?s1] props by auto
  with st fin props show ?thesis by blast
next
  case False
  let ?s1 = "(start_loading fd mb s)\<lparr>loading := loading s @ [Some (next_obj s)],
                   heap := (heap s)(next_obj s := Some (Starter cb))\<rparr>"
  let ?s2 = "delete_obj (next_obj s) (call_on_lba_ready cb
               (?s1\<lparr>loading := [], in_memory_index := Some (index_from_log mb),
                     state := state_ready\<rparr>))"
  have st: "start fd mb cb s = Inr (False, ?s1)"
    by (simp only: start_unstarted[OF assms(1)] False if_False)
  have fin: "starter_finish (next_obj s) (?s1\<lparr>loading := []\<rparr>) = Inr ?s2"
    by (simp add: starter_finish_def start_loading_def)
  have ld: "step Load_done ?s1 = starter_finish (next_obj s) (?s1\<lparr>loading := []\<rparr>)"
    using assms(2) by (simp add: deliver_load_done_def starter_on_load_lba_def start_loading_def)
  have props1: "state ?s1 = state_starting_up" "ready_fired ?s1 = ready_fired s"
    by (simp_all add: start_loading_def)
  have props2: "state ?s2 = state_ready" "loading ?s2 = []"
    "in_memory_index ?s2 = Some (index_from_log mb)"
    "ready_fired ?s2 = ready_fired s @ (case cb of None \<Rightarrow> [] | Some c \<Rightarrow> [c])"
    by (simp_all add: delete_obj_def call_on_lba_ready_def start_loading_def split: option.splits)
  have never: "\<forall>es s3. run es ?s2 = Inr s3 \<longrightarrow> ready_fired s3 = ready_fired ?s2"
    using settled_run[of _ ?s2] props2 by auto
  have early: "\<forall>es s2. Load_done \<notin> set es \<longrightarrow> run es ?s1 = Inr s2 \<longrightarrow>
           state s2 = state_starting_up \<and> ready_fired s2 = ready_fired s"
    using starting_up_run[of _ ?s1] props1 by auto
  have "\<exists>s2. step Load_done ?s1 = Inr s2 \<and>
           step Load_done ?s1 = starter_finish (next_obj s) (?s1\<lparr>loading := []\<rparr>) \<and>
           state s2 = state_ready \<and> in_memory_index s2 = Some (index_from_log mb) \<and>
           ready_fired s2 = ready_fired s @ (case cb of None \<Rightarrow> [] | Some c \<Rightarrow> [c]) \<and>
           (\<forall>es s3. run es s2 = Inr s3 \<longrightarrow> ready_fired s3 = ready_fired s2)"
    using ld fin props2 never by (intro exI[of _ ?s2]) simp
  with st props1 early show ?thesis by blast
qed

theorem start_finishes_once_witness:
  "\<exists>s1 s2. start 3 [(0, 7)] (Some 5) ((lba_list_t_new 0)\<lparr>io := [False]\<rparr>) = Inr (False, s1) \<and>
           step Load_done s1 = Inr s2 \<and> state s2 = state_ready \<and>
           in_memory_index s2 = Some [7] \<and> ready_fired s2 = [5]"
proof -
  let ?s = "(lba_list_t_new 0)\<lparr>io := [False]\<rparr>"
  have hyps: "state ?s = state_unstarted" "loading ?s = []"
    by (simp_all add: lba_list_t_new_def)
  have "case start 3 [(0, 7)] (Some 5) ?s of Inl e \<Rightarrow> False | Inr (fin, x) \<Rightarrow> \<not> fin"
    by code_simp
  then have nf: "\<exists>x. start 3 [(0, 7)] (Some 5) ?s = Inr (False, x)"
    by (auto dest!: Inr_caseE)
  have idx: "index_from_log [(0, 7)] = [7]"
    by (simp add: index_from_log_def index_new_def index_set_block_offset_def)
  have rf: "ready_fired ?s = []" by (simp add: lba_list_t_new_def)
  from start_finishes_once [OF hyps, of 3 "[(0, 7)]" "Some 5"] nf show ?thesis
    by (auto simp: idx rf)
qed












text \<open>The identity of the tables also fails without any overlapping call: the sync returns
  true, and the table rebuilt from the anchor at its return has no entry for the block id
  that was generated and never set, which the in-memory table holds as a tombstone.\<close>

theorem unset_id_not_in_anchor:
  "\<not> isl (run unset_id_history unset_id_start) \<and>
   in_memory_index (projr (run unset_id_history unset_id_start)) = Some [100, DELETE_BLOCK] \<and>
   \<not> isl (sync 0 (Some 7) (projr (run unset_id_history unset_id_start))) \<and>
   fst (projr (sync 0 (Some 7) (projr (run unset_id_history unset_id_start)))) \<and>
   recovered_index (snd (projr (sync 0 (Some 7) (projr (run unset_id_history unset_id_start)))))
     = Inr (Some [100])"
proof -
  have a: "\<not> isl (run unset_id_history unset_id_start)" by code_simp
  have b: "in_memory_index (projr (run unset_id_history unset_id_start)) = Some [100, DELETE_BLOCK]"
    by code_simp
  have c: "\<not> isl (sync 0 (Some 7) (projr (run unset_id_history unset_id_start)))" by code_simp
  have d: "fst (projr (sync 0 (Some 7) (projr (run unset_id_history unset_id_start))))"
    by code_simp
  have e: "recovered_index (snd (projr (sync 0 (Some 7)
             (projr (run unset_id_history unset_id_start))))) = Inr (Some [100])"
    by code_simp
  from a b c d e show ?thesis by blast
qed

end
